theory Spec2Isabelle
  imports Main "HOL-Library.Word" "HOL-Library.Monad_Syntax"
begin

unbundle bit_operations_syntax

text \<open>
  A shallow embedding of the disassembler for in-memory functions: the inlining-context
  annotator \<open>DILineInfoPrinter\<close>, the address table \<open>SymbolTable\<close> and the two-pass loop
  of \<open>jl_dump_asm_internal\<close>. The decoder, the instruction descriptions, the debug
  information, the runtime symbol lookup and the assembly streamer are collaborators of that
  code: they enter as parameters, and the calls made on the streamer are kept as a list of
  events. Pointers are 64 bits wide.
\<close>

section \<open>Text helpers of the LLVM support library\<close>

text \<open>
  \<open>StringRef::rtrim(char)\<close> drops every trailing occurrence of the character.
  \<open>raw_ostream << unsigned\<close> prints the decimal digits of the number.
  \<open>repeat{times, c}\<close> printed with \<open><<\<close> writes \<open>c\<close> that many times.
\<close>

definition rtrim :: "char \<Rightarrow> string \<Rightarrow> string" where
  "rtrim c s = rev (dropWhile (\<lambda>x. x = c) (rev s))"

definition digit_char :: "nat \<Rightarrow> char" where
  "digit_char d = ''0123456789'' ! (d mod 10)"

function write_dec :: "nat \<Rightarrow> string" where
  "write_dec n = (if n < 10 then [digit_char n] else write_dec (n div 10) @ [digit_char (n mod 10)])"
  by pat_completeness auto
termination
  by (relation "measure (\<lambda>n. n)") auto

declare write_dec.simps [simp del]

definition repeat :: "nat \<Rightarrow> string \<Rightarrow> string" where
  "repeat n c = concat (replicate n c)"

section \<open>DILineInfoPrinter: the inlining-context annotator\<close>

text \<open>
  \<open>DILineInfo\<close> is LLVM's source-frame value; its \<open>==\<close> compares every field below.
  The printer reads \<open>FunctionName\<close>, \<open>FileName\<close> and \<open>Line\<close>.
\<close>

record DILineInfo =
  FileName :: string
  FunctionName :: string
  StartFileName :: string
  Line :: "32 word"
  Column :: "32 word"
  StartLine :: "32 word"
  Discriminator :: "32 word"

datatype verbosity_kind = output_none | output_source

text \<open>
  The class state. The member \<open>context\<close> is named \<open>context_vec\<close> here. Vector sizes and the
  \<open>uint32_t\<close> indices \<open>nctx\<close>, \<open>nframes\<close>, \<open>npops\<close>, \<open>i\<close> are natural numbers (a vector
  holds fewer than \<open>2^32\<close> frames); \<open>inline_depth\<close> is the \<open>uint32_t\<close> it is, with its
  wrap-around.
\<close>

record DILineInfoPrinter =
  context_vec :: "DILineInfo list"
  inline_depth :: "32 word"
  LineStart :: string
  bracket_outer :: bool
  collapse_recursive :: bool
  verbosity :: verbosity_kind

definition DILineInfoPrinter_new :: "string \<Rightarrow> bool \<Rightarrow> DILineInfoPrinter" where
  "DILineInfoPrinter_new ls bo =
     \<lparr>context_vec = [], inline_depth = 0, LineStart = ls, bracket_outer = bo,
      collapse_recursive = True, verbosity = output_source\<rparr>"

definition SetVerbosity :: "DILineInfoPrinter \<Rightarrow> string \<Rightarrow> DILineInfoPrinter" where
  "SetVerbosity p c =
     (if ''default'' = c then p\<lparr>verbosity := output_source\<rparr>
      else if ''source'' = c then p\<lparr>verbosity := output_source\<rparr>
      else if ''none'' = c then p\<lparr>verbosity := output_none\<rparr>
      else p)"

text \<open>The three box-drawing glyphs, as their UTF-8 bytes.\<close>

definition glyph_close :: string where
  "glyph_close = [CHR 0xE2, CHR 0x94, CHR 0x94]"

definition glyph_bar :: string where
  "glyph_bar = [CHR 0xE2, CHR 0x94, CHR 0x82]"

definition glyph_open :: string where
  "glyph_open = [CHR 0xE2, CHR 0x94, CHR 0x8C]"

definition inlining_indent_times :: "DILineInfoPrinter \<Rightarrow> nat" where
  "inlining_indent_times p =
     unat (max (inline_depth p + (if bracket_outer p then 1 else 0)) 1 - 1)"

definition inlining_indent :: "DILineInfoPrinter \<Rightarrow> string \<Rightarrow> string" where
  "inlining_indent p c = repeat (inlining_indent_times p) c"

definition emit_finish :: "DILineInfoPrinter \<Rightarrow> string \<times> DILineInfoPrinter" where
  "emit_finish p =
     (let Out = (if inlining_indent_times p > 0
                 then LineStart p @ inlining_indent p glyph_close @ ''\<newline>'' else [])
      in (Out, p\<lparr>context_vec := [], inline_depth := 0\<rparr>))"

text \<open>
  \<open>std::vector::at\<close> throws \<open>std::out_of_range\<close> for an index outside the vector. In this
  section \<open>None\<close> is a call that does not return normally: an index out of range, or the
  assertion that ends \<open>emit_lineinfo\<close> failing.
\<close>

definition at_vec :: "'a list \<Rightarrow> nat \<Rightarrow> 'a option" where
  "at_vec v i = (if i < length v then Some (v ! i) else None)"

definition method_of :: "DILineInfo \<Rightarrow> string" where
  "method_of f = rtrim CHR '';'' (FunctionName f)"

text \<open>The size of the matching prefix of the context and the new stack (innermost frame first in \<open>DI\<close>).\<close>

function match_prefix :: "DILineInfo list \<Rightarrow> DILineInfo list \<Rightarrow> nat \<Rightarrow> nat option" where
  "match_prefix ctx DI nctx =
     (let nframes = length DI in
      if nctx < length ctx \<and> nctx < nframes then
        do {
          CtxLine \<leftarrow> at_vec ctx nctx;
          FrameLine \<leftarrow> at_vec DI (nframes - 1 - nctx);
          if CtxLine \<noteq> FrameLine then Some nctx else match_prefix ctx DI (nctx + 1)
        }
      else Some nctx)"
  by pat_completeness auto
termination
  by (relation "measure (\<lambda>(ctx, DI, nctx). length ctx - nctx)") auto

declare match_prefix.simps [simp del]

text \<open>Dropping the frames of \<open>method\<close> from the top of the matched prefix.\<close>

function exclude_combined :: "DILineInfo list \<Rightarrow> string \<Rightarrow> nat \<Rightarrow> nat option" where
  "exclude_combined ctx method nctx =
     (if nctx > 0 then
        do {
          c \<leftarrow> at_vec ctx (nctx - 1);
          if method_of c = method then exclude_combined ctx method (nctx - 1) else Some nctx
        }
      else Some nctx)"
  by pat_completeness auto
termination
  by (relation "measure (\<lambda>(ctx, method, nctx). nctx)") auto

declare exclude_combined.simps [simp del]

text \<open>
  The recursion-collapse check and the line-only check: the pair
  \<open>(update_line_only, nctx)\<close> they leave.
\<close>

definition same_method_at :: "DILineInfo list \<Rightarrow> nat \<Rightarrow> string \<Rightarrow> bool option" where
  "same_method_at v i method = do { f \<leftarrow> at_vec v i; Some (method_of f = method) }"

definition collapse_check :: "DILineInfo list \<Rightarrow> DILineInfo list \<Rightarrow> nat \<Rightarrow> (bool \<times> nat) option" where
  "collapse_check ctx DI nctx =
     (let nframes = length DI in
      if nctx > 0 then
        do {
          last_match \<leftarrow> at_vec ctx (nctx - 1);
          let method = method_of last_match;
          adding \<leftarrow> (if nctx < nframes then same_method_at DI (nframes - nctx - 1) method
                      else Some False);
          removing \<leftarrow> (if adding then Some True
                        else if nctx < length ctx then same_method_at ctx nctx method
                        else Some False);
          if removing then
            do { n \<leftarrow> exclude_combined ctx method nctx; Some (True, n) }
          else Some (False, nctx)
        }
      else Some (False, nctx))"

definition line_only_check :: "DILineInfoPrinter \<Rightarrow> DILineInfo list \<Rightarrow> nat \<Rightarrow> (bool \<times> nat) option" where
  "line_only_check p DI nctx0 =
     (let ctx = context_vec p; nframes = length DI in
      if collapse_recursive p then
        do {
          (update_line_only, nctx) \<leftarrow> collapse_check ctx DI nctx0;
          if \<not> update_line_only \<and> nctx < length ctx \<and> nctx < nframes then
            do {
              CtxLine \<leftarrow> at_vec ctx nctx;
              FrameLine \<leftarrow> at_vec DI (nframes - 1 - nctx);
              Some (method_of CtxLine = method_of FrameLine, nctx)
            }
          else Some (update_line_only, nctx)
        }
      else if nctx0 < length ctx \<and> nctx0 < nframes then
        do {
          CtxLine \<leftarrow> at_vec ctx nctx0;
          FrameLine \<leftarrow> at_vec DI (nframes - 1 - nctx0);
          Some (FileName CtxLine = FileName FrameLine \<and> method_of CtxLine = method_of FrameLine, nctx0)
        }
      else Some (False, nctx0))"

text \<open>The new inlining depth: one pop for every run of equally named frames being closed.\<close>

function count_pops :: "DILineInfo list \<Rightarrow> string \<Rightarrow> nat \<Rightarrow> nat \<Rightarrow> nat option" where
  "count_pops ctx Prev i npops =
     (if i < length ctx then
        do {
          c \<leftarrow> at_vec ctx i;
          let Next = method_of c;
          count_pops ctx Next (i + 1) (if Prev \<noteq> Next then npops + 1 else npops)
        }
      else Some npops)"
  by pat_completeness auto
termination
  by (relation "measure (\<lambda>(ctx, Prev, i, npops). length ctx - i)") auto

declare count_pops.simps [simp del]

definition close_frames ::
  "DILineInfoPrinter \<Rightarrow> bool \<Rightarrow> nat \<Rightarrow> (string \<times> DILineInfoPrinter) option" where
  "close_frames p update_line_only nctx =
     (let ctx = context_vec p in
      if nctx < length ctx then
        do {
          npops0 \<leftarrow>
            (if collapse_recursive p then
               do { c \<leftarrow> at_vec ctx nctx; count_pops ctx (method_of c) (nctx + 1) 1 }
             else Some (length ctx - nctx));
          let p1 = p\<lparr>context_vec := take nctx ctx\<rparr>;
          let npops = (if update_line_only then npops0 - 1 else npops0);
          if npops > 0 then
            (let p2 = p1\<lparr>inline_depth := inline_depth p1 - of_nat npops\<rparr>
             in Some (LineStart p2 @ inlining_indent p2 glyph_bar @ repeat npops glyph_close @ ''\<newline>'', p2))
          else Some ([], p1)
        }
      else Some ([], p))"

text \<open>Printing the new frames; frames of the method just printed continue its line.\<close>

function same_line_frames ::
  "DILineInfo list \<Rightarrow> string \<Rightarrow> nat \<Rightarrow> DILineInfo list \<Rightarrow> string
     \<Rightarrow> (nat \<times> DILineInfo list \<times> string) option" where
  "same_line_frames DI method nctx ctx Out =
     (let nframes = length DI in
      if nctx < nframes then
        do {
          frame \<leftarrow> at_vec DI (nframes - 1 - nctx);
          if method_of frame \<noteq> method then Some (nctx, ctx, Out)
          else same_line_frames DI method (nctx + 1) (ctx @ [frame])
                 (Out @ '' @ '' @ FileName frame @ '':'' @ write_dec (unat (Line frame)))
        }
      else Some (nctx, ctx, Out))"
  by pat_completeness auto
termination
  by (relation "measure (\<lambda>(DI, method, nctx, ctx, Out). length DI - nctx)") auto

declare same_line_frames.simps [simp del]

definition print_frame ::
  "DILineInfoPrinter \<Rightarrow> DILineInfo list \<Rightarrow> nat \<Rightarrow> bool \<Rightarrow> (nat \<times> string \<times> DILineInfoPrinter) option" where
  "print_frame p DI nctx0 update_line_only =
     do {
       let nframes = length DI;
       frame \<leftarrow> at_vec DI (nframes - 1 - nctx0);
       let Out0 = LineStart p @ inlining_indent p glyph_bar;
       let nctx = nctx0 + 1;
       let p1 = p\<lparr>context_vec := context_vec p @ [frame]\<rparr>;
       let (p2, Out1) =
         (if update_line_only then (p1, Out0)
          else (p1\<lparr>inline_depth := inline_depth p1 + 1\<rparr>,
                if bracket_outer p1 \<or> nctx \<noteq> 1 then Out0 @ glyph_open else Out0));
       let Out2 = Out1 @ '' @ '' @ FileName frame;
       let Out3 = (if Line frame \<noteq> - 1 \<and> Line frame \<noteq> 0
                   then Out2 @ '':'' @ write_dec (unat (Line frame)) else Out2);
       let method = method_of frame;
       let Out4 = Out3 @ '' within `'' @ method @ ''`'';
       (nctx', ctx', Out5) \<leftarrow>
         (if collapse_recursive p2 then same_line_frames DI method nctx (context_vec p2) Out4
          else Some (nctx, context_vec p2, Out4));
       Some (nctx', Out5 @ ''\<newline>'', p2\<lparr>context_vec := ctx'\<rparr>)
     }"

lemma at_vec_rev: "i < length v \<Longrightarrow> at_vec v (length v - 1 - i) = Some (rev v ! i)"
  by (simp add: at_vec_def rev_nth)

lemma same_line_frames_nctx:
  "same_line_frames DI m nctx ctx Out = Some (nctx', ctx', Out') \<Longrightarrow> nctx \<le> nctx'"
proof (induction DI m nctx ctx Out rule: same_line_frames.induct)
  case (1 DI m nctx ctx Out)
  note unf = same_line_frames.simps [of DI m nctx ctx Out]
  show ?case
  proof (cases "nctx < length DI")
    case True
    then obtain frame where fr: "at_vec DI (length DI - 1 - nctx) = Some frame"
      using at_vec_rev by blast
    show ?thesis
    proof (cases "method_of frame \<noteq> m")
      case True
      with "1.prems" fr \<open>nctx < length DI\<close> show ?thesis by (simp add: unf)
    next
      case False
      with "1.prems" fr \<open>nctx < length DI\<close>
      have "same_line_frames DI m (nctx + 1) (ctx @ [frame])
              (Out @ '' @ '' @ FileName frame @ '':'' @ write_dec (unat (Line frame)))
            = Some (nctx', ctx', Out')"
        by (simp add: unf)
      with "1.IH" [OF refl \<open>nctx < length DI\<close> fr False] have "nctx + 1 \<le> nctx'" by simp
      then show ?thesis by simp
    qed
  next
    case False
    with "1.prems" show ?thesis by (simp add: unf)
  qed
qed

lemma print_frame_nctx:
  "print_frame p DI nctx u = Some (nctx', Out', p') \<Longrightarrow> nctx < nctx'"
proof -
  assume a: "print_frame p DI nctx u = Some (nctx', Out', p')"
  then obtain frame where fr: "at_vec DI (length DI - 1 - nctx) = Some frame"
    by (cases "at_vec DI (length DI - 1 - nctx)") (simp_all add: print_frame_def)
  show ?thesis
  proof (cases "collapse_recursive p")
    case True
    with a fr obtain m c O4 c' O5 where "same_line_frames DI m (nctx + 1) c O4 = Some (nctx', c', O5)"
      by (auto simp: print_frame_def Let_def bind_eq_Some_conv split: if_splits prod.splits)
    from same_line_frames_nctx [OF this] show ?thesis by simp
  next
    case False
    with a fr show ?thesis
      by (auto simp: print_frame_def Let_def split: if_splits prod.splits)
  qed
qed

function open_frames ::
  "DILineInfoPrinter \<Rightarrow> DILineInfo list \<Rightarrow> nat \<Rightarrow> bool \<Rightarrow> string
     \<Rightarrow> (nat \<times> string \<times> DILineInfoPrinter) option" where
  "open_frames p DI nctx update_line_only Out =
     (if nctx < length DI then
        (case print_frame p DI nctx update_line_only of
           None \<Rightarrow> None
         | Some (nctx', Out', p') \<Rightarrow> open_frames p' DI nctx' False (Out @ Out'))
      else Some (nctx, Out, p))"
  by pat_completeness auto
termination
  by (relation "measure (\<lambda>(p, DI, nctx, update_line_only, Out). length DI - nctx)")
     (auto dest: print_frame_nctx)

declare open_frames.simps [simp del]

text \<open>
  The closing assertion of \<open>emit_lineinfo\<close> (compiled unless \<open>JL_NDEBUG\<close> is set): the depth
  recomputed from the context.
\<close>

function recount_depth ::
  "bool \<Rightarrow> DILineInfo list \<Rightarrow> string \<Rightarrow> nat \<Rightarrow> nat \<Rightarrow> 32 word \<Rightarrow> 32 word option" where
  "recount_depth collapse ctx Prev i nctx depth2 =
     (if i < nctx then
        do {
          c \<leftarrow> at_vec ctx i;
          let Next = method_of c;
          recount_depth collapse ctx Next (i + 1) nctx
            (if \<not> collapse \<or> Prev \<noteq> Next then depth2 + 1 else depth2)
        }
      else Some depth2)"
  by pat_completeness auto
termination
  by (relation "measure (\<lambda>(collapse, ctx, Prev, i, nctx, depth2). nctx - i)") auto

declare recount_depth.simps [simp del]

definition emit_lineinfo ::
  "DILineInfoPrinter \<Rightarrow> DILineInfo list \<Rightarrow> (string \<times> DILineInfoPrinter) option" where
  "emit_lineinfo p DI =
     (if verbosity p = output_none then Some ([], p)
      else if length DI = 0 then Some ([], p)
      else
        do {
          nctx0 \<leftarrow> match_prefix (context_vec p) DI 0;
          (update_line_only, nctx) \<leftarrow> line_only_check p DI nctx0;
          (Out1, p1) \<leftarrow> close_frames p update_line_only nctx;
          (nctx', Out2, p2) \<leftarrow> open_frames p1 DI nctx update_line_only Out1;
          c0 \<leftarrow> at_vec (context_vec p2) 0;
          depth2 \<leftarrow> recount_depth (collapse_recursive p2) (context_vec p2) (method_of c0) 1 nctx' 1;
          if inline_depth p2 = depth2 then Some (Out2, p2) else None
        })"

text \<open>A run of the annotator over the frame stacks of consecutive instructions.\<close>

fun emit_all ::
  "DILineInfoPrinter \<Rightarrow> DILineInfo list list \<Rightarrow> (string list \<times> DILineInfoPrinter) option" where
  "emit_all p [] = Some ([], p)"
| "emit_all p (DI # rest) =
     (case emit_lineinfo p DI of
        None \<Rightarrow> None
      | Some (Out, p') \<Rightarrow>
          (case emit_all p' rest of
             None \<Rightarrow> None
           | Some (Outs, p'') \<Rightarrow> Some (Out # Outs, p'')))"

section \<open>SymbolTable: names for addresses\<close>

text \<open>
  \<open>Table\<close> is the \<open>std::map\<close> from addresses to names; the empty name stands for an
  address without a symbol. The memory object is kept as its base and its size, the object
  file as the list of its symbols (for each one whether its section is the end iterator, the
  address of the section, the address of the symbol, and its name when \<open>getName\<close>
  succeeds), \<open>None\<close> being no object file. \<open>Pass\<close> is not initialised by the
  constructor and is set before each pass.

  \<open>lookupLocalPC\<close> returns the function name that the runtime's \<open>jl_getFunctionInfo\<close>
  finds for an address (\<open>None\<close> for a null pointer); that runtime function is a parameter.
  The loop of \<open>createSymbols\<close> visits every entry of the table once, and what it writes
  depends on that entry, the instruction pointer and the memory range only:
  \<open>createSymbols_entry\<close> is its body, applied to every entry. \<open>lookupSymbolName\<close>
  returns the name with the table it leaves, \<open>None\<close> being the null pointer.
  \<open>lookupSymbol\<close> returns the name that identifies the symbol. The \<open>MCContext\<close>
  holds one symbol for each name, and \<open>lookupSymbol\<close> asserts that the symbol it gets is
  not defined yet: the context enters as \<open>isUndefined\<close>, which tells that of the symbol
  of a name, and a failed assertion is the error \<open>symbol_already_defined\<close>.
\<close>

datatype error = annotator_abort | symbol_already_defined

record SymbolRef =
  section_is_end :: bool
  section_address :: "64 word"
  symbol_address :: "64 word"
  symbol_name :: "string option"

record SymbolTable =
  Table :: "64 word \<rightharpoonup> string"
  MemObj_data :: "64 word"
  MemObj_size :: "64 word"
  Pass :: int
  object :: "SymbolRef list option"
  ip :: "64 word"
  slide :: "64 word"

definition SymbolTable_new ::
  "SymbolRef list option \<Rightarrow> 64 word \<Rightarrow> 64 word \<Rightarrow> 64 word \<Rightarrow> SymbolTable" where
  "SymbolTable_new obj sl fptr fsize =
     \<lparr>Table = Map.empty, MemObj_data = fptr, MemObj_size = fsize, Pass = 0,
      object = obj, ip = 0, slide = sl\<rparr>"

definition setPass :: "SymbolTable \<Rightarrow> int \<Rightarrow> SymbolTable" where
  "setPass st P = st\<lparr>Pass := P\<rparr>"

definition setIP :: "SymbolTable \<Rightarrow> 64 word \<Rightarrow> SymbolTable" where
  "setIP st addr = st\<lparr>ip := addr\<rparr>"

fun symbols_scan :: "SymbolRef list \<Rightarrow> 64 word \<Rightarrow> string" where
  "symbols_scan [] offset = []"
| "symbols_scan (Sym # rest) offset =
     (if section_is_end Sym then symbols_scan rest offset
      else if section_address Sym = 0 then symbols_scan rest offset
      else if symbol_address Sym = offset then
        (case symbol_name Sym of Some sName \<Rightarrow> sName | None \<Rightarrow> symbols_scan rest offset)
      else symbols_scan rest offset)"

definition getSymbolNameAt :: "SymbolTable \<Rightarrow> 64 word \<Rightarrow> string" where
  "getSymbolNameAt st offset =
     (case object st of None \<Rightarrow> [] | Some syms \<Rightarrow> symbols_scan syms offset)"

definition lookupLocalPC :: "(64 word \<Rightarrow> string option) \<Rightarrow> 64 word \<Rightarrow> string option" where
  "lookupLocalPC getFunctionInfo addr = getFunctionInfo addr"

definition insertAddress :: "SymbolTable \<Rightarrow> 64 word \<Rightarrow> SymbolTable" where
  "insertAddress st addr = st\<lparr>Table := (Table st)(addr \<mapsto> [])\<rparr>"

definition createSymbols_entry ::
  "(64 word \<Rightarrow> string option) \<Rightarrow> SymbolTable \<Rightarrow> 64 word \<Rightarrow> string \<Rightarrow> string" where
  "createSymbols_entry getFunctionInfo st first second =
     (let Fptr = MemObj_data st; Fsize = MemObj_size st;
          rel = first - ip st; addr = first
      in if Fptr \<le> addr \<and> addr < Fptr + Fsize then ''L'' @ write_dec (unat rel)
         else (case lookupLocalPC getFunctionInfo addr of
                 Some global \<Rightarrow> if global \<noteq> [] then global else second
               | None \<Rightarrow> second))"

definition createSymbols :: "(64 word \<Rightarrow> string option) \<Rightarrow> SymbolTable \<Rightarrow> SymbolTable" where
  "createSymbols getFunctionInfo st =
     st\<lparr>Table := (\<lambda>first. map_option (createSymbols_entry getFunctionInfo st first) (Table st first))\<rparr>"

definition c_str_or_null :: "string \<Rightarrow> string option" where
  "c_str_or_null s = (if s = [] then None else Some s)"

definition lookupSymbolName ::
  "(64 word \<Rightarrow> string option) \<Rightarrow> SymbolTable \<Rightarrow> 64 word \<Rightarrow> string option \<times> SymbolTable" where
  "lookupSymbolName getFunctionInfo st addr =
     (case Table st addr of
        Some second \<Rightarrow> (c_str_or_null second, st)
      | None \<Rightarrow>
          (let local_name = getSymbolNameAt st (addr + slide st);
               second = (if local_name = [] then
                           (case lookupLocalPC getFunctionInfo addr of Some global \<Rightarrow> global | None \<Rightarrow> [])
                         else local_name)
           in (c_str_or_null second, st\<lparr>Table := (Table st)(addr \<mapsto> second)\<rparr>)))"

definition lookupSymbol ::
  "(string \<Rightarrow> bool) \<Rightarrow> SymbolTable \<Rightarrow> 64 word \<Rightarrow> error + string option" where
  "lookupSymbol isUndefined st addr =
     (case Table st addr of
        None \<Rightarrow> Inr None
      | Some second \<Rightarrow>
          if second = [] then Inr None
          else if isUndefined second then Inr (Some second)
          else Inl symbol_already_defined)"

text \<open>Lookups of a list of addresses, one after the other.\<close>

fun lookup_all ::
  "(64 word \<Rightarrow> string option) \<Rightarrow> SymbolTable \<Rightarrow> 64 word list \<Rightarrow> SymbolTable" where
  "lookup_all getFunctionInfo st [] = st"
| "lookup_all getFunctionInfo st (addr # rest) =
     lookup_all getFunctionInfo (snd (lookupSymbolName getFunctionInfo st addr)) rest"

section \<open>The two-pass disassembly loop\<close>

text \<open>
  One pass of \<open>jl_dump_asm_internal\<close>: what precedes the loop, the loop over the offsets
  of the range, and what follows it. \<open>disasm_env\<close> holds the arguments of the function and
  its collaborators:
  \<^item> \<open>getInstruction\<close>, the decoder: from the pass, the offset, the size the last
    iteration left in \<open>insSize\<close> and the table (which the symbolizer of the second pass
    may extend), it gives the status, the instruction, the size, the text it wrote to the
    comment stream and the table;
  \<^item> an instruction, as far as the loop reads it: whether its description is a branch or a
    call, and its operands (immediate or not, the immediate, PC-relative or not);
  \<^item> \<open>MCIA_evaluateBranch\<close>, the branch evaluation of the instruction analysis, when
    there is one;
  \<^item> \<open>di_ctx\<close>, the inlining chain of an address, when there is debug information;
    \<open>di_lineinfo\<close>, the line table as the filter before the passes leaves it; and
    \<open>past_the_end\<close>, what the loop reads when it moves the iterator of that table past
    its last entry and dereferences it;
  \<^item> \<open>fixed_width_cpu\<close>, true when the code is compiled for PowerPC or ARM, where an
    undecodable word is four bytes; the architecture and byte order of the target triple;
    the bytes of the memory; and \<open>write_hex\<close> of the LLVM support library.

  The streamer is the list of the calls made on it. A write to its comment stream is the
  event \<open>CommentOS\<close>; the stream holds text when the decoder has written some. The loop
  may run forever: \<open>disasm_loop\<close> is \<open>None\<close> then. An iteration ends in an error
  when the annotator does not return normally, or when the assertion of \<open>lookupSymbol\<close>
  fails.
\<close>

datatype DecodeStatus = Fail | SoftFail | Success

record MCOperand =
  isImm :: bool
  getImm :: "64 word"
  OperandType_PCREL :: bool

record MCInst =
  isBranch :: bool
  isCall :: bool
  Operands :: "MCOperand list"

datatype stream_event =
  emitRawText string
| emitLabel string
| AddComment string
| emitInstruction MCInst
| CommentOS string

record decoded =
  status :: DecodeStatus
  Inst :: MCInst
  Size :: "64 word"
  CStream :: string
  Info :: SymbolTable

datatype HexPrintStyle = Lower | PrefixLower

record disasm_env =
  Fptr :: "64 word"
  Fsize :: "64 word"
  env_slide :: "64 word"
  binary :: bool
  debuginfo :: string
  fixed_width_cpu :: bool
  Triple_x86 :: bool
  Triple_isLittleEndian :: bool
  getInstruction :: "int \<Rightarrow> 64 word \<Rightarrow> 64 word \<Rightarrow> SymbolTable \<Rightarrow> decoded"
  MCIA_evaluateBranch :: "(MCInst \<Rightarrow> 64 word \<Rightarrow> 64 word \<Rightarrow> 64 word option) option"
  jl_getFunctionInfo :: "64 word \<Rightarrow> string option"
  di_ctx :: "(64 word \<Rightarrow> DILineInfo list) option"
  di_lineinfo :: "(64 word \<times> DILineInfo) list"
  past_the_end :: "nat \<Rightarrow> 64 word \<times> DILineInfo"
  read_u8 :: "64 word \<Rightarrow> 8 word"
  read_u32 :: "64 word \<Rightarrow> 32 word"
  write_hex :: "nat \<Rightarrow> HexPrintStyle \<Rightarrow> nat \<Rightarrow> string"

record loop_state =
  Index :: "64 word"
  insSize :: "64 word"
  DisInfo :: SymbolTable
  dbgctx :: DILineInfoPrinter
  nextLineAddr :: "64 word"
  di_lineIter :: nat
  Streamer :: "stream_event list"

text \<open>
  A symbol of the context is defined by the call of \<open>emitLabel\<close> on it, and by nothing
  else here: an operand that refers to a symbol leaves it undefined.
\<close>

definition Ctx_isUndefined :: "stream_event list \<Rightarrow> string \<Rightarrow> bool" where
  "Ctx_isUndefined out name \<longleftrightarrow> emitLabel name \<notin> set out"

definition slice :: "disasm_env \<Rightarrow> 64 word \<Rightarrow> 64 word \<Rightarrow> 8 word list" where
  "slice env N M = map (\<lambda>i. read_u8 env (Fptr env + N + of_nat i)) [0..<unat M]"

definition rawCodeComment :: "disasm_env \<Rightarrow> 64 word \<Rightarrow> 8 word list \<Rightarrow> string" where
  "rawCodeComment env Address Memory =
     (let Stream0 = ''; '' @ write_hex env (unat (Address AND 0xffff)) Lower 4 @ '':'';
          FixedLength = \<not> Triple_x86 env;
          Stream1 = (if FixedLength then Stream0 @ '' '' else Stream0)
      in if FixedLength \<and> Triple_isLittleEndian env then
           Stream1 @ concat (map (\<lambda>Byte. write_hex env (unat Byte) Lower 2) (rev Memory))
         else
           Stream1 @ concat (map (\<lambda>Byte. (if \<not> FixedLength then '' '' else []) @
                                          write_hex env (unat Byte) Lower 2) Memory))"

definition line_entry :: "disasm_env \<Rightarrow> nat \<Rightarrow> 64 word \<times> DILineInfo" where
  "line_entry env i = (if i < length (di_lineinfo env) then di_lineinfo env ! i else past_the_end env i)"

definition emit_buf :: "string \<Rightarrow> stream_event list" where
  "emit_buf buf = (if buf \<noteq> [] then [emitRawText buf] else [])"

definition annotate_address :: "disasm_env \<Rightarrow> int \<Rightarrow> loop_state \<Rightarrow> error + loop_state" where
  "annotate_address env pass s =
     (if pass \<noteq> 0 \<and> nextLineAddr s \<noteq> - 1 \<and> Index s + Fptr env + env_slide env = nextLineAddr s then
        (case di_ctx env of
           None \<Rightarrow> Inr s
         | Some getInliningInfoForAddress \<Rightarrow>
             (let dbg = getInliningInfoForAddress (Index s + Fptr env + env_slide env);
                  DI = (if length dbg \<noteq> 0 then dbg else [snd (line_entry env (di_lineIter s))])
              in case emit_lineinfo (dbgctx s) DI of
                   None \<Rightarrow> Inl annotator_abort
                 | Some (buf, dbgctx') \<Rightarrow>
                     Inr (s\<lparr>dbgctx := dbgctx',
                            Streamer := Streamer s @ emit_buf buf,
                            di_lineIter := di_lineIter s + 1,
                            nextLineAddr := fst (line_entry env (di_lineIter s + 1))\<rparr>)))
      else Inr s)"

definition declare_label :: "disasm_env \<Rightarrow> int \<Rightarrow> loop_state \<Rightarrow> error + loop_state" where
  "declare_label env pass s =
     (let s1 = s\<lparr>DisInfo := setIP (DisInfo s) (Fptr env + Index s)\<rparr>
      in if pass \<noteq> 0 then
           (case lookupSymbol (Ctx_isUndefined (Streamer s1)) (DisInfo s1) (Fptr env + Index s) of
              Inl e \<Rightarrow> Inl e
            | Inr (Some symbol) \<Rightarrow> Inr (s1\<lparr>Streamer := Streamer s1 @ [emitLabel symbol]\<rparr>)
            | Inr None \<Rightarrow> Inr s1)
         else Inr s1)"

definition decode_at :: "disasm_env \<Rightarrow> int \<Rightarrow> loop_state \<Rightarrow> DecodeStatus \<times> MCInst \<times> loop_state" where
  "decode_at env pass s =
     (let d = getInstruction env pass (Index s) (insSize s) (DisInfo s);
          s1 = s\<lparr>insSize := Size d, DisInfo := Info d\<rparr>;
          s2 = (if pass \<noteq> 0 \<and> CStream d \<noteq> []
                then s1\<lparr>Streamer := Streamer s1 @ [CommentOS (CStream d), CommentOS ''\<newline>'']\<rparr>
                else s1)
      in (status d, Inst d, s2))"

definition case_Fail :: "disasm_env \<Rightarrow> int \<Rightarrow> loop_state \<Rightarrow> loop_state" where
  "case_Fail env pass s =
     (let s1 = (if insSize s = 0 then s\<lparr>insSize := (if fixed_width_cpu env then 4 else 1)\<rparr> else s)
      in if pass \<noteq> 0 then
           (let buf = (if insSize s1 = 4 then
                         CHR 0x09 # ''.long'' @ CHR 0x09 # write_hex env (unat (read_u32 env (Fptr env + Index s1))) PrefixLower 8
                       else
                         concat (map (\<lambda>i. CHR 0x09 # ''.byte'' @ CHR 0x09 #
                                   write_hex env (unat (read_u8 env (Fptr env + Index s1 + of_nat i))) PrefixLower 2)
                                 [0..<unat (insSize s1)]))
            in s1\<lparr>Streamer := Streamer s1 @ [emitRawText buf]\<rparr>)
         else s1)"

text \<open>The operand loop of the emission pass: every immediate operand is looked up.\<close>

fun symbolicate_operands ::
  "disasm_env \<Rightarrow> 64 word \<Rightarrow> MCOperand list \<Rightarrow> SymbolTable \<Rightarrow> stream_event list
     \<Rightarrow> SymbolTable \<times> stream_event list" where
  "symbolicate_operands env pc [] info out = (info, out)"
| "symbolicate_operands env pc (OpI # rest) info out =
     (if isImm OpI then
        (let imm = (if OperandType_PCREL OpI then getImm OpI + pc else getImm OpI);
             (name, info') = lookupSymbolName (jl_getFunctionInfo env) info imm
         in symbolicate_operands env pc rest info'
              (case name of Some n \<Rightarrow> out @ [AddComment n] | None \<Rightarrow> out))
      else symbolicate_operands env pc rest info out)"

definition case_Success :: "disasm_env \<Rightarrow> int \<Rightarrow> MCInst \<Rightarrow> loop_state \<Rightarrow> loop_state" where
  "case_Success env pass I s =
     (if pass = 0 then
        (case MCIA_evaluateBranch env of
           Some evaluateBranch \<Rightarrow>
             if isBranch I \<or> isCall I then
               (case evaluateBranch I (Fptr env + Index s) (insSize s) of
                  Some addr \<Rightarrow> s\<lparr>DisInfo := insertAddress (DisInfo s) addr\<rparr>
                | None \<Rightarrow> s)
             else s
         | None \<Rightarrow> s)
      else
        (let (info, out1) = symbolicate_operands env (Fptr env + Index s) (Operands I) (DisInfo s) (Streamer s);
             out2 = (if binary env
                     then out1 @ [emitRawText (rawCodeComment env (Fptr env + Index s) (slice env (Index s) (insSize s)))]
                     else out1)
         in s\<lparr>DisInfo := info, Streamer := out2 @ [emitInstruction I]\<rparr>))"

definition case_SoftFail :: "disasm_env \<Rightarrow> int \<Rightarrow> MCInst \<Rightarrow> loop_state \<Rightarrow> loop_state" where
  "case_SoftFail env pass I s =
     (let s1 = (if pass \<noteq> 0
                then s\<lparr>Streamer := Streamer s @ [emitRawText ''potentially undefined instruction encoding:'']\<rparr>
                else s)
      in case_Success env pass I s1)"

definition switch_status :: "disasm_env \<Rightarrow> int \<Rightarrow> DecodeStatus \<Rightarrow> MCInst \<Rightarrow> loop_state \<Rightarrow> loop_state" where
  "switch_status env pass S I s =
     (case S of
        Fail \<Rightarrow> case_Fail env pass s
      | SoftFail \<Rightarrow> case_SoftFail env pass I s
      | Success \<Rightarrow> case_Success env pass I s)"

definition loop_body :: "disasm_env \<Rightarrow> int \<Rightarrow> loop_state \<Rightarrow> error + loop_state" where
  "loop_body env pass s =
     (case annotate_address env pass s of
        Inl e \<Rightarrow> Inl e
      | Inr s1 \<Rightarrow>
          (case declare_label env pass s1 of
             Inl e \<Rightarrow> Inl e
           | Inr s2 \<Rightarrow>
               (let (S, I, s3) = decode_at env pass s2;
                    s4 = switch_status env pass S I s3
                in Inr (s4\<lparr>Index := Index s4 + insSize s4\<rparr>))))"

partial_function (option) disasm_loop ::
  "disasm_env \<Rightarrow> int \<Rightarrow> loop_state \<Rightarrow> (error + loop_state) option" where
  "disasm_loop env pass s =
     (if Index s < Fsize env then
        (case loop_body env pass s of
           Inl e \<Rightarrow> Some (Inl e)
         | Inr s' \<Rightarrow> disasm_loop env pass s')
      else Some (Inr s))"

text \<open>The same loop with a bound on the number of iterations: \<open>None\<close> when the bound is used up.\<close>

fun disasm_loop_within ::
  "nat \<Rightarrow> disasm_env \<Rightarrow> int \<Rightarrow> loop_state \<Rightarrow> (error + loop_state) option" where
  "disasm_loop_within n env pass s =
     (if Index s < Fsize env then
        (case n of
           0 \<Rightarrow> None
         | Suc k \<Rightarrow>
             (case loop_body env pass s of
                Inl e \<Rightarrow> Some (Inl e)
              | Inr s' \<Rightarrow> disasm_loop_within k env pass s'))
      else Some (Inr s))"

text \<open>What one pass does before and after its loop, and the pass as a whole.\<close>

definition pass_begin ::
  "disasm_env \<Rightarrow> int \<Rightarrow> SymbolTable \<Rightarrow> stream_event list \<Rightarrow> error + loop_state" where
  "pass_begin env pass info out =
     (let s0 = \<lparr>Index = 0, insSize = 0, DisInfo = setPass info pass,
                dbgctx = SetVerbosity (DILineInfoPrinter_new ''; '' True) (debuginfo env),
                nextLineAddr = - 1, di_lineIter = 0, Streamer = out\<rparr>
      in if pass \<noteq> 0 \<and> di_ctx env \<noteq> None \<and> di_lineinfo env \<noteq> [] then
           (let s1 = s0\<lparr>nextLineAddr := fst (line_entry env 0)\<rparr>
            in if nextLineAddr s1 \<noteq> Fptr env + env_slide env then
                 (case emit_lineinfo (dbgctx s1) [snd (line_entry env 0)] of
                    None \<Rightarrow> Inl annotator_abort
                  | Some (buf, dbgctx') \<Rightarrow>
                      Inr (s1\<lparr>dbgctx := dbgctx', Streamer := Streamer s1 @ emit_buf buf\<rparr>))
               else Inr s1)
         else Inr s0)"

definition pass_end :: "disasm_env \<Rightarrow> int \<Rightarrow> loop_state \<Rightarrow> loop_state" where
  "pass_end env pass s =
     (let s1 = s\<lparr>DisInfo := setIP (DisInfo s) (Fptr env)\<rparr>;
          s2 = (if pass = 0
                then s1\<lparr>DisInfo := createSymbols (jl_getFunctionInfo env) (DisInfo s1)\<rparr>
                else s1)
      in if pass \<noteq> 0 \<and> di_ctx env \<noteq> None then
           (let (buf, dbgctx') = emit_finish (dbgctx s2)
            in s2\<lparr>dbgctx := dbgctx', Streamer := Streamer s2 @ emit_buf buf\<rparr>)
         else s2)"

definition run_pass ::
  "disasm_env \<Rightarrow> int \<Rightarrow> SymbolTable \<Rightarrow> stream_event list \<Rightarrow> (error + loop_state) option" where
  "run_pass env pass info out =
     (case pass_begin env pass info out of
        Inl e \<Rightarrow> Some (Inl e)
      | Inr s0 \<Rightarrow>
          (case disasm_loop env pass s0 of
             None \<Rightarrow> None
           | Some (Inl e) \<Rightarrow> Some (Inl e)
           | Some (Inr s) \<Rightarrow> Some (Inr (pass_end env pass s))))"

text \<open>A decoder that reports success without consuming a byte, on a one-byte range.\<close>

definition stuck_inst :: MCInst where
  "stuck_inst = \<lparr>isBranch = False, isCall = False, Operands = []\<rparr>"

definition stuck_env :: disasm_env where
  "stuck_env =
     \<lparr>Fptr = 0x1000, Fsize = 1, env_slide = 0, binary = False,
      debuginfo = ''default'', fixed_width_cpu = False, Triple_x86 = True,
      Triple_isLittleEndian = True,
      getInstruction = (\<lambda>pass idx sz info.
         \<lparr>status = Success, Inst = stuck_inst, Size = 0, CStream = [], Info = info\<rparr>),
      MCIA_evaluateBranch = None,
      jl_getFunctionInfo = (\<lambda>addr. None),
      di_ctx = None, di_lineinfo = [],
      past_the_end = (\<lambda>i. (0, \<lparr>FileName = [], FunctionName = [], StartFileName = [],
                                 Line = 0, Column = 0, StartLine = 0, Discriminator = 0\<rparr>)),
      read_u8 = (\<lambda>a. 0), read_u32 = (\<lambda>a. 0),
      write_hex = (\<lambda>n style width. [])\<rparr>"

text \<open>
  A sample run: an 8-byte range on a fixed-width CPU; the bytes at offset 0 do not decode, the
  instruction at offset 4 is a direct call to offset 0.
\<close>

definition call_inst :: MCInst where
  "call_inst = \<lparr>isBranch = False, isCall = True,
                 Operands = [\<lparr>isImm = True, getImm = - 4, OperandType_PCREL = True\<rparr>]\<rparr>"

definition sample_env :: disasm_env where
  "sample_env =
     \<lparr>Fptr = 0x1000, Fsize = 8, env_slide = 0, binary = False,
      debuginfo = ''default'', fixed_width_cpu = True, Triple_x86 = False,
      Triple_isLittleEndian = True,
      getInstruction = (\<lambda>pass idx sz info.
         if idx = 4 then \<lparr>status = Success, Inst = call_inst, Size = 4, CStream = [], Info = info\<rparr>
         else \<lparr>status = Fail, Inst = stuck_inst, Size = 0, CStream = [], Info = info\<rparr>),
      MCIA_evaluateBranch = Some (\<lambda>I addr sz. if isCall I then Some (addr - 4) else None),
      jl_getFunctionInfo = (\<lambda>addr. None),
      di_ctx = None, di_lineinfo = [],
      past_the_end = (\<lambda>i. (0, \<lparr>FileName = [], FunctionName = [], StartFileName = [],
                                 Line = 0, Column = 0, StartLine = 0, Discriminator = 0\<rparr>)),
      read_u8 = (\<lambda>a. 0), read_u32 = (\<lambda>a. 0),
      write_hex = (\<lambda>n style width. ''0x00000000'')\<rparr>"

definition sample_start :: loop_state where
  "sample_start =
     \<lparr>Index = 0, insSize = 0, DisInfo = SymbolTable_new None 0 0x1000 8,
      dbgctx = DILineInfoPrinter_new ''; '' True, nextLineAddr = - 1, di_lineIter = 0,
      Streamer = []\<rparr>"

section \<open>Notions used in the statements\<close>

text \<open>
  \<open>runs\<close> counts the runs of consecutive frames with the same method name, the name being
  the function name without its trailing semicolons. \<open>frame_head\<close> is the text that opens a
  frame, \<open>same_line_text\<close> the text of a frame that continues the line of the frame before
  it, and \<open>frame_at\<close> a frame given by its function, file and line. \<open>printer_ok\<close>
  is the invariant of the printer: \<open>inline_depth\<close> counts the runs of its context.
\<close>

definition runs :: "DILineInfo list \<Rightarrow> nat" where
  "runs ctx = length (remdups_adj (map method_of ctx))"

definition same_line_text :: "DILineInfo \<Rightarrow> string" where
  "same_line_text frame = '' @ '' @ FileName frame @ '':'' @ write_dec (unat (Line frame))"

definition frame_head :: "DILineInfo \<Rightarrow> string" where
  "frame_head f =
     '' @ '' @ FileName f @
     (if Line f \<noteq> - 1 \<and> Line f \<noteq> 0 then '':'' @ write_dec (unat (Line f)) else []) @
     '' within `'' @ method_of f @ ''`''"

definition frame_at :: "string \<Rightarrow> string \<Rightarrow> 32 word \<Rightarrow> DILineInfo" where
  "frame_at f file l =
     \<lparr>FileName = file, FunctionName = f, StartFileName = [], Line = l, Column = 0,
      StartLine = 0, Discriminator = 0\<rparr>"

text \<open>
  \<open>name_at\<close> is the name that \<open>lookupSymbolName\<close> gives for an address, the empty name
  for none. \<open>labels_distinct\<close> tells that no label can be declared twice in a pass that
  starts with a table and a streamer: no label has been emitted yet, the decoder changes the
  table by lookups only, and no two addresses of the range have the same name, the empty
  name apart. \<open>table_inv\<close> and \<open>labels_inv\<close> are what the iterations keep of that.
\<close>

definition name_at :: "disasm_env \<Rightarrow> SymbolTable \<Rightarrow> 64 word \<Rightarrow> string" where
  "name_at env info addr =
     (case fst (lookupSymbolName (jl_getFunctionInfo env) info addr) of
        Some name \<Rightarrow> name
      | None \<Rightarrow> [])"

definition labels_distinct :: "disasm_env \<Rightarrow> SymbolTable \<Rightarrow> stream_event list \<Rightarrow> bool" where
  "labels_distinct env info out \<longleftrightarrow>
     (\<forall>name. Ctx_isUndefined out name) \<and>
     (\<forall>pass idx sz st. \<exists>addrs.
        Info (getInstruction env pass idx sz st) = lookup_all (jl_getFunctionInfo env) st addrs) \<and>
     (\<forall>i j. i < Fsize env \<and> j < Fsize env \<and> name_at env info (Fptr env + i) \<noteq> [] \<and>
            name_at env info (Fptr env + i) = name_at env info (Fptr env + j) \<longrightarrow> i = j)"

definition table_inv :: "disasm_env \<Rightarrow> SymbolTable \<Rightarrow> SymbolTable \<Rightarrow> bool" where
  "table_inv env info st \<longleftrightarrow>
     object st = object info \<and> slide st = slide info \<and>
     (\<forall>a. Table info a \<noteq> None \<longrightarrow> Table st a \<noteq> None) \<and>
     (\<forall>a n. Table st a = Some n \<longrightarrow> n = name_at env info a)"

definition labels_inv :: "disasm_env \<Rightarrow> SymbolTable \<Rightarrow> loop_state \<Rightarrow> bool" where
  "labels_inv env info s \<longleftrightarrow>
     table_inv env info (DisInfo s) \<and>
     (\<forall>n. emitLabel n \<in> set (Streamer s) \<longrightarrow>
          (\<exists>j. j < Index s \<and> j < Fsize env \<and> n = name_at env info (Fptr env + j)))"

definition printer_ok :: "DILineInfoPrinter \<Rightarrow> bool" where
  "printer_ok p = (collapse_recursive p \<and> unat (inline_depth p) = runs (context_vec p))"

section \<open>What each loop of the annotator computes\<close>

text \<open>
  With \<open>N = rev DI\<close> the new stack read from the outermost frame: the prefix loop leaves a
  common prefix of the context and \<open>N\<close>; the collapse check leaves an index where a run of
  method names of the context starts; closing then lowers the depth by the runs removed, and
  opening raises it by the runs added.
\<close>

lemma at_vec_Some: "i < length v \<Longrightarrow> at_vec v i = Some (v ! i)"
  by (simp add: at_vec_def)

lemma match_prefix_take:
  "k \<le> length ctx \<Longrightarrow> k \<le> length DI \<Longrightarrow> take k ctx = take k (rev DI) \<Longrightarrow>
   \<exists>k'. match_prefix ctx DI k = Some k' \<and> k' \<le> length ctx \<and> k' \<le> length DI \<and>
        take k' ctx = take k' (rev DI)"
proof (induction ctx DI k rule: match_prefix.induct)
  case (1 ctx DI nctx)
  note unf = match_prefix.simps [of ctx DI nctx]
  show ?case
  proof (cases "nctx < length ctx \<and> nctx < length DI")
    case False
    with "1.prems" show ?thesis by (subst match_prefix.simps) auto
  next
    case True
    then have c: "at_vec ctx nctx = Some (ctx ! nctx)"
      and f: "at_vec DI (length DI - 1 - nctx) = Some (rev DI ! nctx)"
      using at_vec_rev [of nctx DI] by (simp_all add: at_vec_Some)
    show ?thesis
    proof (cases "ctx ! nctx \<noteq> rev DI ! nctx")
      case True
      with \<open>nctx < length ctx \<and> nctx < length DI\<close> c f "1.prems" show ?thesis
        by (simp add: unf)
    next
      case False
      then have eq: "ctx ! nctx = rev DI ! nctx" by simp
      have tk: "take (nctx + 1) ctx = take (nctx + 1) (rev DI)"
        using True "1.prems"(3) eq by (simp add: take_Suc_conv_app_nth)
      have "\<exists>k'. match_prefix ctx DI (nctx + 1) = Some k' \<and> k' \<le> length ctx \<and> k' \<le> length DI \<and>
              take k' ctx = take k' (rev DI)"
        using "1.IH" [OF refl True c f] eq True tk by simp
      moreover have "match_prefix ctx DI nctx = match_prefix ctx DI (nctx + 1)"
        using True c f eq by (simp add: unf)
      ultimately show ?thesis by simp
    qed
  qed
qed

lemma exclude_combined_res:
  "k \<le> length ctx \<Longrightarrow>
   \<exists>k'. exclude_combined ctx m k = Some k' \<and> k' \<le> k \<and>
        (\<forall>j. k' \<le> j \<and> j < k \<longrightarrow> method_of (ctx ! j) = m) \<and>
        (0 < k' \<longrightarrow> method_of (ctx ! (k' - 1)) \<noteq> m)"
proof (induction ctx m k rule: exclude_combined.induct)
  case (1 ctx m nctx)
  note unf = exclude_combined.simps [of ctx m nctx]
  show ?case
  proof (cases "nctx > 0")
    case False
    then show ?thesis by (subst exclude_combined.simps) simp
  next
    case True
    with "1.prems" have c: "at_vec ctx (nctx - 1) = Some (ctx ! (nctx - 1))"
      by (simp add: at_vec_Some)
    show ?thesis
    proof (cases "method_of (ctx ! (nctx - 1)) = m")
      case False
      with True c show ?thesis by (auto simp: unf)
    next
      case same: True
      have "nctx - 1 \<le> length ctx" using "1.prems" by simp
      from "1.IH" [OF True c same this]
      obtain k' where k': "exclude_combined ctx m (nctx - 1) = Some k'" "k' \<le> nctx - 1"
        "\<forall>j. k' \<le> j \<and> j < nctx - 1 \<longrightarrow> method_of (ctx ! j) = m"
        "0 < k' \<longrightarrow> method_of (ctx ! (k' - 1)) \<noteq> m"
        by auto
      have "exclude_combined ctx m nctx = Some k'"
        using True c same k'(1) by (simp add: unf)
      moreover have "\<forall>j. k' \<le> j \<and> j < nctx \<longrightarrow> method_of (ctx ! j) = m"
      proof (intro allI impI)
        fix j assume "k' \<le> j \<and> j < nctx"
        then have "j < nctx - 1 \<or> j = nctx - 1" by arith
        then show "method_of (ctx ! j) = m" using k'(3) same \<open>k' \<le> j \<and> j < nctx\<close> by auto
      qed
      ultimately show ?thesis using k'(2,4) by auto
    qed
  qed
qed

lemma count_pops_res:
  "i \<le> length ctx \<Longrightarrow>
   count_pops ctx Prev i npops =
     Some (npops + (length (remdups_adj (Prev # map method_of (drop i ctx))) - 1))"
proof (induction ctx Prev i npops rule: count_pops.induct)
  case (1 ctx Prev i npops)
  note unf = count_pops.simps [of ctx Prev i npops]
  show ?case
  proof (cases "i < length ctx")
    case False
    with "1.prems" show ?thesis by (subst count_pops.simps) simp
  next
    case True
    then have c: "at_vec ctx i = Some (ctx ! i)" by (simp add: at_vec_Some)
    have d: "drop i ctx = ctx ! i # drop (i + 1) ctx"
      using True by (simp add: Cons_nth_drop_Suc)
    have ih: "count_pops ctx (method_of (ctx ! i)) (i + 1) (if Prev \<noteq> method_of (ctx ! i) then npops + 1 else npops)
       = Some ((if Prev \<noteq> method_of (ctx ! i) then npops + 1 else npops) +
           (length (remdups_adj (method_of (ctx ! i) # map method_of (drop (i + 1) ctx))) - 1))"
      using "1.IH" [OF True c refl] True by simp
    have "count_pops ctx Prev i npops =
       count_pops ctx (method_of (ctx ! i)) (i + 1) (if Prev \<noteq> method_of (ctx ! i) then npops + 1 else npops)"
      using True c by (simp add: unf Let_def)
    then show ?thesis
      unfolding ih d by (auto simp: Suc_leI)
  qed
qed

lemma runs_split:
  "k = 0 \<or> length xs \<le> k \<or> xs ! (k - 1) \<noteq> xs ! k \<Longrightarrow>
   length (remdups_adj xs) = length (remdups_adj (take k xs)) + length (remdups_adj (drop k xs))"
proof -
  assume a: "k = 0 \<or> length xs \<le> k \<or> xs ! (k - 1) \<noteq> xs ! k"
  have "take k xs = [] \<or> drop k xs = [] \<or> last (take k xs) \<noteq> hd (drop k xs)"
  proof (cases "k = 0 \<or> length xs \<le> k")
    case True
    then show ?thesis by auto
  next
    case False
    then have "0 < k" "k < length xs" by auto
    then have "last (take k xs) = xs ! (k - 1)" "hd (drop k xs) = xs ! k"
      by (cases k; simp add: take_Suc_conv_app_nth hd_drop_conv_nth)+
    with a False show ?thesis by simp
  qed
  from remdups_adj_append' [OF this] show ?thesis
    by (metis append_take_drop_id length_append)
qed

lemma at_vec_rev': "i < length v \<Longrightarrow> at_vec v (length v - Suc i) = Some (rev v ! i)"
  using at_vec_rev [of i v] by simp

lemma same_method_at_rev:
  "i < length DI \<Longrightarrow> same_method_at DI (length DI - Suc i) m = Some (method_of (rev DI ! i) = m)"
  by (simp add: same_method_at_def at_vec_rev')

lemma same_method_at_nth:
  "i < length v \<Longrightarrow> same_method_at v i m = Some (method_of (v ! i) = m)"
  by (simp add: same_method_at_def at_vec_Some)

lemma collapse_check_unfold:
  assumes "0 < k0" "k0 \<le> length ctx"
  shows "collapse_check ctx DI k0 =
     (if (k0 < length DI \<and> method_of (rev DI ! k0) = method_of (ctx ! (k0 - 1))) \<or>
         (k0 < length ctx \<and> method_of (ctx ! k0) = method_of (ctx ! (k0 - 1)))
      then do { n \<leftarrow> exclude_combined ctx (method_of (ctx ! (k0 - 1))) k0; Some (True, n) }
      else Some (False, k0))"
proof -
  have lm: "at_vec ctx (k0 - Suc 0) = Some (ctx ! (k0 - 1))"
    using assms by (simp add: at_vec_Some)
  show ?thesis
  proof (cases "k0 < length DI")
    case d: True
    show ?thesis
    proof (cases "k0 < length ctx")
      case True
      with d assms(1) lm show ?thesis
        by (simp add: collapse_check_def Let_def same_method_at_nth rev_nth)
    next
      case False
      with d assms(1) lm show ?thesis
        by (simp add: collapse_check_def Let_def same_method_at_rev)
    qed
  next
    case d: False
    show ?thesis
    proof (cases "k0 < length ctx")
      case True
      with d assms(1) lm show ?thesis
        by (simp add: collapse_check_def Let_def same_method_at_nth)
    next
      case False
      with d assms(1) lm show ?thesis
        by (simp add: collapse_check_def Let_def)
    qed
  qed
qed

lemma collapse_check_res:
  assumes k0: "k0 \<le> length ctx" "k0 \<le> length DI"
    and tk: "take k0 ctx = take k0 (rev DI)"
  shows "\<exists>u k. collapse_check ctx DI k0 = Some (u, k) \<and> k \<le> k0 \<and>
     (u \<longrightarrow> k < k0 \<and> (0 < k \<longrightarrow> method_of (ctx ! (k - 1)) \<noteq> method_of (ctx ! k))) \<and>
     (\<not> u \<longrightarrow> k = k0 \<and>
        (0 < k \<and> k < length ctx \<longrightarrow> method_of (ctx ! (k - 1)) \<noteq> method_of (ctx ! k)) \<and>
        (0 < k \<and> k < length DI \<longrightarrow> method_of (rev DI ! k) \<noteq> method_of (ctx ! (k - 1))))"
proof (cases "0 < k0")
  case False
  then show ?thesis by (auto simp: collapse_check_def)
next
  case pos: True
  define m where "m = method_of (ctx ! (k0 - 1))"
  define removing where "removing =
    ((k0 < length DI \<and> method_of (rev DI ! k0) = m) \<or> (k0 < length ctx \<and> method_of (ctx ! k0) = m))"
  note unf = collapse_check_unfold [OF pos k0(1), of DI, folded m_def, folded removing_def]
  show ?thesis
  proof (cases removing)
    case True
    from exclude_combined_res [of k0 ctx m] k0
    obtain k where k: "exclude_combined ctx m k0 = Some k" "k \<le> k0"
      "\<forall>j. k \<le> j \<and> j < k0 \<longrightarrow> method_of (ctx ! j) = m"
      "0 < k \<longrightarrow> method_of (ctx ! (k - 1)) \<noteq> m"
      by blast
    have "k \<noteq> k0" using k(4) pos m_def by auto
    with k(2) have lt: "k < k0" by simp
    then have mk: "method_of (ctx ! k) = m" using k(3) by simp
    have "collapse_check ctx DI k0 = Some (True, k)"
      using True k(1) by (simp add: unf)
    then show ?thesis
      by (intro exI [of _ True] exI [of _ k]) (use lt k(4) mk in simp)
  next
    case False
    have "collapse_check ctx DI k0 = Some (False, k0)"
      using False by (simp add: unf)
    moreover have "k0 < length ctx \<longrightarrow> method_of (ctx ! (k0 - 1)) \<noteq> method_of (ctx ! k0)"
      using False by (auto simp: removing_def m_def)
    moreover have "k0 < length DI \<longrightarrow> method_of (rev DI ! k0) \<noteq> method_of (ctx ! (k0 - 1))"
      using False by (auto simp: removing_def m_def)
    ultimately show ?thesis
      by (intro exI [of _ False] exI [of _ k0]) simp
  qed
qed

lemma line_only_check_res:
  assumes col: "collapse_recursive p"
    and k0: "k0 \<le> length (context_vec p)" "k0 \<le> length DI"
    and tk: "take k0 (context_vec p) = take k0 (rev DI)"
  shows "\<exists>u k. line_only_check p DI k0 = Some (u, k) \<and> k \<le> k0 \<and>
     (0 < k \<and> k < length (context_vec p) \<longrightarrow>
        method_of (context_vec p ! (k - 1)) \<noteq> method_of (context_vec p ! k)) \<and>
     (u \<longrightarrow> k < length DI \<and> k < length (context_vec p) \<and>
        method_of (rev DI ! k) = method_of (context_vec p ! k)) \<and>
     (0 < k \<and> k < length DI \<longrightarrow> method_of (rev DI ! k) \<noteq> method_of (context_vec p ! (k - 1)))"
proof -
  define ctx where "ctx = context_vec p"
  note k0' = k0 [folded ctx_def]
  from collapse_check_res [OF k0' tk [folded ctx_def]]
  obtain u k where c: "collapse_check ctx DI k0 = Some (u, k)" "k \<le> k0"
     "u \<longrightarrow> k < k0 \<and> (0 < k \<longrightarrow> method_of (ctx ! (k - 1)) \<noteq> method_of (ctx ! k))"
     "\<not> u \<longrightarrow> k = k0 \<and>
        (0 < k \<and> k < length ctx \<longrightarrow> method_of (ctx ! (k - 1)) \<noteq> method_of (ctx ! k)) \<and>
        (0 < k \<and> k < length DI \<longrightarrow> method_of (rev DI ! k) \<noteq> method_of (ctx ! (k - 1)))"
    by blast
  show ?thesis
  proof (cases u)
    case True
    with c(3) have lt: "k < k0" and bd: "0 < k \<longrightarrow> method_of (ctx ! (k - 1)) \<noteq> method_of (ctx ! k)"
      by simp_all
    have nk: "rev DI ! k = ctx ! k"
      using tk lt unfolding ctx_def [symmetric] by (metis nth_take)
    have "line_only_check p DI k0 = Some (True, k)"
      using col c(1) True by (simp add: line_only_check_def ctx_def)
    then show ?thesis
      unfolding ctx_def [symmetric]
      by (intro exI [of _ True] exI [of _ k]) (use lt k0' bd nk in auto)
  next
    case False
    with c(4) have e: "k = k0" by simp
    have "line_only_check p DI k0 =
        Some (k0 < length ctx \<and> k0 < length DI \<and> method_of (ctx ! k0) = method_of (rev DI ! k0), k0)"
      using col c(1) False e k0'
      by (auto simp: line_only_check_def Let_def ctx_def at_vec_rev' at_vec_Some)
    then show ?thesis
      unfolding ctx_def [symmetric] using False c(4) e by auto
  qed
qed

lemma unat_sub_of_nat:
  fixes d :: "32 word"
  assumes "n \<le> unat d"
  shows "unat (d - of_nat n) = unat d - n"
proof -
  have u: "unat (of_nat n :: 32 word) = n" using assms by (rule le_unat_uoi)
  then have "(of_nat n :: 32 word) \<le> d" using assms by (simp add: word_le_nat_alt)
  then show ?thesis using u by (simp add: unat_sub)
qed

lemma unat_add_one:
  fixes d :: "32 word"
  assumes "unat d + 1 < 2 ^ 32"
  shows "unat (d + 1) = unat d + 1"
  using assms by (simp add: unat_word_ariths)

lemma runs_take_Suc:
  "n < length xs \<Longrightarrow>
   length (remdups_adj (take (Suc n) xs)) =
     length (remdups_adj (take n xs)) + (if n = 0 \<or> xs ! (n - 1) \<noteq> xs ! n then 1 else 0)"
proof (cases n)
  case 0
  assume "n < length xs"
  with 0 show ?thesis by (cases xs) simp_all
next
  case (Suc k)
  assume a: "n < length xs"
  with Suc have t1: "take (Suc n) xs = take k xs @ [xs ! k, xs ! n]"
    by (simp add: take_Suc_conv_app_nth)
  from a Suc have t2: "take n xs = take k xs @ [xs ! k]"
    by (simp add: take_Suc_conv_app_nth)
  show ?thesis unfolding t1 t2 remdups_adj_append_two using Suc by simp
qed

lemma runs_snoc:
  "n < length fs \<Longrightarrow>
   runs (take (Suc n) fs) =
     runs (take n fs) + (if n = 0 \<or> method_of (fs ! (n - 1)) \<noteq> method_of (fs ! n) then 1 else 0)"
  using runs_take_Suc [of n "map method_of fs"] by (simp add: runs_def take_map)

lemma runs_le_length: "runs fs \<le> length fs"
  by (simp add: runs_def order_trans [OF remdups_adj_length])

lemma runs_drop_pos: "k < length fs \<Longrightarrow> 0 < runs (drop k fs)"
  by (simp add: runs_def)

lemma runs_take_drop:
  assumes "k = 0 \<or> length fs \<le> k \<or> method_of (fs ! (k - 1)) \<noteq> method_of (fs ! k)"
  shows "runs fs = runs (take k fs) + runs (drop k fs)"
proof -
  have "k = 0 \<or> length (map method_of fs) \<le> k \<or> map method_of fs ! (k - 1) \<noteq> map method_of fs ! k"
    using assms by (cases "k = 0 \<or> length fs \<le> k") auto
  from runs_split [OF this] show ?thesis by (simp add: runs_def take_map drop_map)
qed

lemma close_frames_res:
  assumes col: "collapse_recursive p"
    and inv: "unat (inline_depth p) = runs (context_vec p)"
    and k: "k \<le> length (context_vec p)"
    and bd: "0 < k \<and> k < length (context_vec p) \<longrightarrow>
               method_of (context_vec p ! (k - 1)) \<noteq> method_of (context_vec p ! k)"
    and u: "u \<longrightarrow> k < length (context_vec p)"
  shows "\<exists>Out d. close_frames p u k = Some (Out, p\<lparr>context_vec := take k (context_vec p), inline_depth := d\<rparr>)
           \<and> unat d = runs (take k (context_vec p)) + (if u then 1 else 0)"
proof (cases "k < length (context_vec p)")
  case False
  with k u have e: "k = length (context_vec p)" "\<not> u" by auto
  have "close_frames p u k = Some ([], p)" using False by (simp add: close_frames_def)
  moreover have "p\<lparr>context_vec := take k (context_vec p), inline_depth := inline_depth p\<rparr> = p"
    using e by simp
  ultimately show ?thesis using inv e
    by (intro exI [of _ "[]"] exI [of _ "inline_depth p"]) simp
next
  case True
  define ctx where "ctx = context_vec p"
  define np where "np = runs (drop k ctx)"
  have c: "at_vec ctx k = Some (ctx ! k)" using True by (simp add: at_vec_Some ctx_def)
  have d: "drop k ctx = ctx ! k # drop (k + 1) ctx"
    using True by (simp add: Cons_nth_drop_Suc ctx_def)
  have "count_pops ctx (method_of (ctx ! k)) (k + 1) 1 =
      Some (1 + (length (remdups_adj (method_of (ctx ! k) # map method_of (drop (k + 1) ctx))) - 1))"
    using True by (intro count_pops_res) (simp add: ctx_def)
  also have "method_of (ctx ! k) # map method_of (drop (k + 1) ctx) = map method_of (drop k ctx)"
    using arg_cong [OF d, of "map method_of"] by simp
  finally have cp: "count_pops ctx (method_of (ctx ! k)) (k + 1) 1 = Some np"
    using True by (simp add: np_def runs_def ctx_def)
  have pos: "0 < np" using True by (simp add: np_def runs_drop_pos ctx_def)
  have split: "runs ctx = runs (take k ctx) + np"
    unfolding np_def using bd True by (intro runs_take_drop) (auto simp: ctx_def)
  define npops where "npops = (if u then np - 1 else np)"
  have le: "npops \<le> unat (inline_depth p)"
    using inv split by (auto simp: npops_def ctx_def)
  define d where "d = (if 0 < npops then inline_depth p - of_nat npops else inline_depth p)"
  have ud: "unat d = runs (take k ctx) + (if u then 1 else 0)"
    using unat_sub_of_nat [OF le] inv split pos
    by (auto simp: d_def npops_def ctx_def)
  have "\<exists>Out. close_frames p u k = Some (Out, p\<lparr>context_vec := take k ctx, inline_depth := d\<rparr>)"
  proof (cases "0 < npops")
    case True
    then show ?thesis
      using \<open>k < length (context_vec p)\<close> col c cp
      by (simp add: close_frames_def Let_def ctx_def [symmetric] npops_def [symmetric] d_def)
  next
    case False
    moreover have "p\<lparr>context_vec := take k ctx, inline_depth := inline_depth p\<rparr> = p\<lparr>context_vec := take k ctx\<rparr>"
      by simp
    ultimately show ?thesis
      using \<open>k < length (context_vec p)\<close> col c cp
      by (simp add: close_frames_def Let_def ctx_def [symmetric] npops_def [symmetric] d_def)
  qed
  with ud show ?thesis unfolding ctx_def by blast
qed

lemma same_line_frames_res:
  "nctx \<le> length DI \<Longrightarrow>
   same_line_frames DI m nctx ctx Out =
     (let fs = takeWhile (\<lambda>f. method_of f = m) (drop nctx (rev DI))
      in Some (nctx + length fs, ctx @ fs, Out @ concat (map same_line_text fs)))"
proof (induction "length DI - nctx" arbitrary: nctx ctx Out)
  case 0
  then have "nctx = length DI" by simp
  then show ?case
    by (subst same_line_frames.simps) simp
next
  case (Suc x)
  then have lt: "nctx < length DI" by simp
  then have fr: "at_vec DI (length DI - 1 - nctx) = Some (rev DI ! nctx)"
    by (rule at_vec_rev)
  have d: "drop nctx (rev DI) = rev DI ! nctx # drop (nctx + 1) (rev DI)"
    using lt by (simp add: Cons_nth_drop_Suc)
  show ?case
  proof (cases "method_of (rev DI ! nctx) \<noteq> m")
    case True
    then show ?thesis
      using lt fr by (subst same_line_frames.simps) (simp add: d)
  next
    case False
    have "x = length DI - Suc nctx" "Suc nctx \<le> length DI" using Suc.hyps(2) lt by simp_all
    note ih = Suc.hyps(1) [OF this]
    show ?thesis
      using lt fr False
      by (subst same_line_frames.simps) (simp add: ih d Let_def same_line_text_def)
  qed
qed

lemma takeWhile_drop_props:
  fixes xs :: "'a list" and k :: nat and P :: "'a \<Rightarrow> bool"
  defines "n' \<equiv> k + length (takeWhile P (drop k xs))"
  assumes k: "k \<le> length xs"
  shows "n' \<le> length xs"
    and "take k xs @ takeWhile P (drop k xs) = take n' xs"
    and "\<forall>j. k \<le> j \<and> j < n' \<longrightarrow> P (xs ! j)"
    and "n' < length xs \<longrightarrow> \<not> P (xs ! n')"
proof -
  define ys where "ys = drop k xs"
  define tw where "tw = takeWhile P ys"
  have n': "n' = k + length tw" by (simp add: n'_def tw_def ys_def)
  have l: "length tw \<le> length ys"
    unfolding tw_def by (rule length_takeWhile_le)
  have ly: "length ys = length xs - k" by (simp add: ys_def)
  show "n' \<le> length xs" using l ly k n' by simp
  have "tw = take (length tw) ys"
    unfolding tw_def by (rule takeWhile_eq_take)
  then have "take k xs @ tw = take k xs @ take (length tw) (drop k xs)" by (simp add: ys_def)
  also have "\<dots> = take (k + length tw) xs" by (simp add: take_add)
  finally show "take k xs @ takeWhile P (drop k xs) = take n' xs"
    unfolding n' by (simp add: tw_def ys_def)
  have nth: "\<And>i. i < length ys \<Longrightarrow> ys ! i = xs ! (k + i)"
    using k by (simp add: ys_def)
  show "\<forall>j. k \<le> j \<and> j < n' \<longrightarrow> P (xs ! j)"
  proof (intro allI impI)
    fix j assume j: "k \<le> j \<and> j < n'"
    then have i: "j - k < length tw" unfolding n' by arith
    then have "tw ! (j - k) \<in> set tw" by (rule nth_mem)
    then have "P (tw ! (j - k))" unfolding tw_def by (rule set_takeWhileD [THEN conjunct2])
    moreover have "tw ! (j - k) = ys ! (j - k)"
      using i unfolding tw_def by (rule takeWhile_nth)
    moreover have "ys ! (j - k) = xs ! (k + (j - k))" using i l by (intro nth) simp
    ultimately show "P (xs ! j)" using j by simp
  qed
  show "n' < length xs \<longrightarrow> \<not> P (xs ! n')"
  proof
    assume "n' < length xs"
    then have lt: "length tw < length ys" using ly by (simp add: n')
    then have "\<not> P (ys ! length tw)" unfolding tw_def by (rule nth_length_takeWhile)
    moreover have "ys ! length tw = xs ! (k + length tw)" using lt by (rule nth)
    ultimately show "\<not> P (xs ! n')" by (simp add: n')
  qed
qed

lemma runs_same_run:
  assumes "0 < k" "k \<le> n" "n \<le> length fs"
    and "\<forall>j. k \<le> j \<and> j < n \<longrightarrow> method_of (fs ! j) = method_of (fs ! (k - 1))"
  shows "runs (take n fs) = runs (take k fs)"
  using assms(2,3,4)
proof (induction n rule: dec_induct)
  case base
  show ?case by simp
next
  case (step n)
  then have a: "\<forall>j. k \<le> j \<and> j < Suc n \<longrightarrow> method_of (fs ! j) = method_of (fs ! (k - 1))"
    and lt: "n < length fs" by simp_all
  have "method_of (fs ! (n - 1)) = method_of (fs ! n)"
  proof (cases "n = k")
    case True
    with a show ?thesis by simp
  next
    case False
    with step(1) have "k \<le> n - 1" "n - 1 < Suc n" "k \<le> n" by simp_all
    with a have "method_of (fs ! (n - 1)) = method_of (fs ! (k - 1))"
      "method_of (fs ! n) = method_of (fs ! (k - 1))" by simp_all
    then show ?thesis by simp
  qed
  moreover have "n \<noteq> 0" using assms(1) step(1) by simp
  ultimately have "runs (take (Suc n) fs) = runs (take n fs)"
    using runs_snoc [OF lt] by simp
  also have "\<dots> = runs (take k fs)" using step a by simp
  finally show ?case .
qed

lemma print_frame_res:
  assumes col: "collapse_recursive p"
    and lt: "nctx < length DI"
    and cv: "context_vec p = take nctx (rev DI)"
    and inv: "unat (inline_depth p) = runs (take nctx (rev DI)) + (if u then 1 else 0)"
    and bd: "0 < nctx \<longrightarrow> method_of (rev DI ! nctx) \<noteq> method_of (rev DI ! (nctx - 1))"
    and len: "length DI < 2 ^ 32"
  shows "\<exists>n' Out d. print_frame p DI nctx u =
            Some (n', Out, p\<lparr>context_vec := take n' (rev DI), inline_depth := d\<rparr>) \<and>
          nctx < n' \<and> n' \<le> length DI \<and> unat d = runs (take n' (rev DI)) \<and>
          (n' < length DI \<longrightarrow> method_of (rev DI ! n') \<noteq> method_of (rev DI ! (n' - 1)))"
proof -
  define N where "N = rev DI"
  define frame where "frame = N ! nctx"
  define m where "m = method_of frame"
  have fr: "at_vec DI (length DI - Suc nctx) = Some frame"
    unfolding frame_def N_def using lt by (rule at_vec_rev')
  have ltN: "nctx < length N" using lt by (simp add: N_def)
  have lenN: "length N = length DI" by (simp add: N_def)
  have tk: "take nctx N @ [frame] = take (Suc nctx) N"
    using ltN by (simp add: take_Suc_conv_app_nth frame_def)
  have r1: "runs (take (Suc nctx) N) = runs (take nctx N) + 1"
    using runs_snoc [OF ltN] bd by (auto simp: N_def)
  define d where "d = (if u then inline_depth p else inline_depth p + 1)"
  have "runs (take nctx N) \<le> nctx" using runs_le_length [of "take nctx N"] by simp
  then have "runs (take nctx N) + 1 < 2 ^ 32" using lt len by simp
  then have ud: "unat d = runs (take (Suc nctx) N)"
    using inv unat_add_one [of "inline_depth p"] r1 by (auto simp: d_def N_def)
  define fs where "fs = takeWhile (\<lambda>f. method_of f = m) (drop (Suc nctx) N)"
  define n' where "n' = Suc nctx + length fs"
  have le1: "Suc nctx \<le> length N" using ltN by simp
  note tw = takeWhile_drop_props [OF le1, of "\<lambda>f. method_of f = m", folded fs_def, folded n'_def]
  have sl: "\<And>ctx Out. same_line_frames DI m (Suc nctx) ctx Out =
       Some (n', ctx @ fs, Out @ concat (map same_line_text fs))"
    using same_line_frames_res [of "Suc nctx" DI m] lt
    by (simp add: Let_def fs_def n'_def N_def)
  have pf: "\<exists>Out. print_frame p DI nctx u =
      Some (n', Out, p\<lparr>context_vec := take n' N, inline_depth := d\<rparr>)"
  proof (cases u)
    case True
    then show ?thesis
      using fr col
      by (simp add: print_frame_def Let_def cv N_def [symmetric] m_def [symmetric] sl d_def
            tk tw(2) [symmetric] del: append_assoc)
  next
    case False
    then show ?thesis
      using fr col
      by (simp add: print_frame_def Let_def cv N_def [symmetric] m_def [symmetric] sl d_def
            tk tw(2) [symmetric] del: append_assoc)
  qed
  have r2: "runs (take n' N) = runs (take (Suc nctx) N)"
    using tw(1,3) by (intro runs_same_run) (simp_all add: n'_def m_def frame_def)
  have last_m: "method_of (N ! (n' - 1)) = m"
  proof (cases "n' = Suc nctx")
    case True
    then show ?thesis by (simp add: m_def frame_def)
  next
    case False
    then have "Suc nctx \<le> n' - 1" "n' - 1 < n'" by (cases fs; simp add: n'_def)+
    with tw(3) show ?thesis by blast
  qed
  from pf obtain Out where "print_frame p DI nctx u =
      Some (n', Out, p\<lparr>context_vec := take n' N, inline_depth := d\<rparr>)" ..
  then show ?thesis
    unfolding N_def [symmetric]
    by (intro exI [of _ n'] exI [of _ Out] exI [of _ d])
       (use tw(1,4) ud r2 last_m lenN in \<open>simp add: n'_def\<close>)
qed

lemma open_frames_res:
  assumes col: "collapse_recursive p"
    and le: "nctx \<le> length DI"
    and u: "u \<longrightarrow> nctx < length DI"
    and cv: "context_vec p = take nctx (rev DI)"
    and inv: "unat (inline_depth p) = runs (take nctx (rev DI)) + (if u then 1 else 0)"
    and bd: "0 < nctx \<and> nctx < length DI \<longrightarrow>
               method_of (rev DI ! nctx) \<noteq> method_of (rev DI ! (nctx - 1))"
    and len: "length DI < 2 ^ 32"
  shows "\<exists>Out d. open_frames p DI nctx u Out0 =
            Some (length DI, Out, p\<lparr>context_vec := rev DI, inline_depth := d\<rparr>) \<and>
          unat d = runs (rev DI)"
  using assms
proof (induction "length DI - nctx" arbitrary: p nctx u Out0 rule: less_induct)
  case less
  show ?case
  proof (cases "nctx < length DI")
    case False
    with less.prems have e: "nctx = length DI" "\<not> u" by auto
    have "open_frames p DI nctx u Out0 = Some (nctx, Out0, p)"
      using False by (subst open_frames.simps) simp
    moreover have "p\<lparr>context_vec := rev DI, inline_depth := inline_depth p\<rparr> = p"
      using less.prems(4) e by simp
    ultimately show ?thesis using less.prems(5) e
      by (intro exI [of _ Out0] exI [of _ "inline_depth p"]) simp
  next
    case True
    from print_frame_res [OF less.prems(1) True less.prems(4,5) _ less.prems(7)] less.prems(6) True
    obtain n' Out d where pf: "print_frame p DI nctx u =
            Some (n', Out, p\<lparr>context_vec := take n' (rev DI), inline_depth := d\<rparr>)"
          "nctx < n'" "n' \<le> length DI" "unat d = runs (take n' (rev DI))"
          "n' < length DI \<longrightarrow> method_of (rev DI ! n') \<noteq> method_of (rev DI ! (n' - 1))"
      by auto
    define p' where "p' = p\<lparr>context_vec := take n' (rev DI), inline_depth := d\<rparr>"
    have step: "open_frames p DI nctx u Out0 = open_frames p' DI n' False (Out0 @ Out)"
      using True pf(1) by (subst open_frames.simps) (simp add: p'_def)
    have "\<exists>Out2 d2. open_frames p' DI n' False (Out0 @ Out) =
            Some (length DI, Out2, p'\<lparr>context_vec := rev DI, inline_depth := d2\<rparr>) \<and>
          unat d2 = runs (rev DI)"
    proof (rule less.hyps)
      show "length DI - n' < length DI - nctx" using pf(2) True by simp
      show "collapse_recursive p'" using less.prems(1) by (simp add: p'_def)
      show "n' \<le> length DI" by (rule pf(3))
      show "False \<longrightarrow> n' < length DI" by simp
      show "context_vec p' = take n' (rev DI)" by (simp add: p'_def)
      show "unat (inline_depth p') = runs (take n' (rev DI)) + (if False then 1 else 0)"
        using pf(4) by (simp add: p'_def)
      show "0 < n' \<and> n' < length DI \<longrightarrow> method_of (rev DI ! n') \<noteq> method_of (rev DI ! (n' - 1))"
        using pf(5) by simp
      show "length DI < 2 ^ 32" by (rule less.prems(7))
    qed
    then show ?thesis unfolding step by (simp add: p'_def)
  qed
qed

lemma recount_depth_res:
  "nctx \<le> length ctx \<Longrightarrow> i \<le> nctx \<Longrightarrow>
   recount_depth True ctx Prev i nctx d2 =
     Some (d2 + of_nat (length (remdups_adj (Prev # map method_of (take (nctx - i) (drop i ctx)))) - 1))"
proof (induction True ctx Prev i nctx d2 rule: recount_depth.induct)
  case (1 ctx Prev i nctx depth2)
  show ?case
  proof (cases "i < nctx")
    case False
    with "1.prems" show ?thesis by (subst recount_depth.simps) simp
  next
    case True
    with "1.prems" have il: "i < length ctx" by simp
    then have c: "at_vec ctx i = Some (ctx ! i)" by (simp add: at_vec_Some)
    define Next where "Next = method_of (ctx ! i)"
    define rest where "rest = map method_of (take (nctx - Suc i) (drop (Suc i) ctx))"
    define d' where "d' = (if Prev \<noteq> Next then depth2 + 1 else depth2)"
    have "drop i ctx = ctx ! i # drop (Suc i) ctx" using il by (simp add: Cons_nth_drop_Suc)
    moreover have "nctx - i = Suc (nctx - Suc i)" using True by simp
    ultimately have tk: "map method_of (take (nctx - i) (drop i ctx)) = Next # rest"
      by (simp add: Next_def rest_def)
    have ih: "recount_depth True ctx Next (Suc i) nctx d' =
        Some (d' + of_nat (length (remdups_adj (Next # rest)) - 1))"
      using "1.hyps" [OF True c refl] "1.prems" True
      by (simp add: Next_def rest_def d'_def)
    have step: "recount_depth True ctx Prev i nctx depth2 = recount_depth True ctx Next (Suc i) nctx d'"
      using True c by (subst recount_depth.simps) (simp add: Let_def Next_def d'_def)
    have pos: "0 < length (remdups_adj (Next # rest))" by simp
    have "d' + of_nat (length (remdups_adj (Next # rest)) - 1) =
          depth2 + of_nat (length (remdups_adj (Prev # Next # rest)) - 1)"
    proof (cases "Prev = Next")
      case True
      then show ?thesis by (simp add: d'_def)
    next
      case False
      then have "length (remdups_adj (Prev # Next # rest)) - 1 =
                 Suc (length (remdups_adj (Next # rest)) - 1)"
        using pos by simp
      with False show ?thesis by (simp add: d'_def)
    qed
    then show ?thesis unfolding step ih tk by simp
  qed
qed

lemma emit_lineinfo_source:
  assumes v: "verbosity p = output_source"
    and col: "collapse_recursive p"
    and inv: "unat (inline_depth p) = runs (context_vec p)"
    and ne: "DI \<noteq> []"
    and len: "length DI < 2 ^ 32"
  shows "\<exists>Out d. emit_lineinfo p DI = Some (Out, p\<lparr>context_vec := rev DI, inline_depth := d\<rparr>) \<and>
           unat d = runs (rev DI)"
proof -
  define ctx where "ctx = context_vec p"
  from match_prefix_take [of 0 ctx DI]
  obtain k0 where k0: "match_prefix ctx DI 0 = Some k0" "k0 \<le> length ctx" "k0 \<le> length DI"
      "take k0 ctx = take k0 (rev DI)"
    by auto
  from line_only_check_res [OF col k0(2,3,4) [unfolded ctx_def]]
  obtain u k where lo: "line_only_check p DI k0 = Some (u, k)" "k \<le> k0"
      "0 < k \<and> k < length ctx \<longrightarrow> method_of (ctx ! (k - 1)) \<noteq> method_of (ctx ! k)"
      "u \<longrightarrow> k < length DI \<and> k < length ctx \<and> method_of (rev DI ! k) = method_of (ctx ! k)"
      "0 < k \<and> k < length DI \<longrightarrow> method_of (rev DI ! k) \<noteq> method_of (ctx ! (k - 1))"
    unfolding ctx_def by blast
  have kl: "k \<le> length ctx" "k \<le> length DI" using lo(2) k0(2,3) by simp_all
  have tkk: "take k ctx = take k (rev DI)"
    using k0(4) lo(2) by (metis min.absorb1 take_take)
  from close_frames_res [OF col inv kl(1) [unfolded ctx_def] lo(3) [unfolded ctx_def]] lo(4)
  obtain Out1 d1 where cl: "close_frames p u k = Some (Out1, p\<lparr>context_vec := take k ctx, inline_depth := d1\<rparr>)"
      "unat d1 = runs (take k ctx) + (if u then 1 else 0)"
    unfolding ctx_def by blast
  define p1 where "p1 = p\<lparr>context_vec := take k ctx, inline_depth := d1\<rparr>"
  have bd: "0 < k \<and> k < length DI \<longrightarrow> method_of (rev DI ! k) \<noteq> method_of (rev DI ! (k - 1))"
  proof
    assume a: "0 < k \<and> k < length DI"
    then have "rev DI ! (k - 1) = ctx ! (k - 1)"
      using tkk by (metis diff_less nth_take zero_less_one)
    with lo(5) a show "method_of (rev DI ! k) \<noteq> method_of (rev DI ! (k - 1))" by simp
  qed
  have "\<exists>Out d. open_frames p1 DI k u Out1 =
            Some (length DI, Out, p1\<lparr>context_vec := rev DI, inline_depth := d\<rparr>) \<and>
          unat d = runs (rev DI)"
  proof (rule open_frames_res)
    show "collapse_recursive p1" using col by (simp add: p1_def)
    show "k \<le> length DI" by (rule kl(2))
    show "u \<longrightarrow> k < length DI" using lo(4) by simp
    show "context_vec p1 = take k (rev DI)" using tkk by (simp add: p1_def)
    show "unat (inline_depth p1) = runs (take k (rev DI)) + (if u then 1 else 0)"
      using cl(2) tkk by (simp add: p1_def)
    show "0 < k \<and> k < length DI \<longrightarrow> method_of (rev DI ! k) \<noteq> method_of (rev DI ! (k - 1))"
      by (rule bd)
    show "length DI < 2 ^ 32" by (rule len)
  qed
  then obtain Out2 d where op: "open_frames p1 DI k u Out1 =
            Some (length DI, Out2, p\<lparr>context_vec := rev DI, inline_depth := d\<rparr>)"
      "unat d = runs (rev DI)"
    by (auto simp: p1_def)
  define p2 where "p2 = p\<lparr>context_vec := rev DI, inline_depth := d\<rparr>"
  have c0: "at_vec (context_vec p2) 0 = Some (rev DI ! 0)"
    using ne by (simp add: p2_def at_vec_Some)
  have "recount_depth True (rev DI) (method_of (rev DI ! 0)) 1 (length DI) 1 =
     Some (1 + of_nat (length (remdups_adj (method_of (rev DI ! 0) #
             map method_of (take (length DI - 1) (drop 1 (rev DI))))) - 1))"
    using ne by (intro recount_depth_res) (simp_all add: Suc_leI)
  also have "method_of (rev DI ! 0) # map method_of (take (length DI - 1) (drop 1 (rev DI))) =
       map method_of (rev DI)"
    using ne by (cases "rev DI") simp_all
  also have "(1 :: 32 word) + of_nat (length (remdups_adj (map method_of (rev DI))) - 1) =
       of_nat (runs (rev DI))"
  proof -
    have "0 < runs (rev DI)" using ne by (simp add: runs_def)
    then have "runs (rev DI) = Suc (runs (rev DI) - 1)" by simp
    then have "(of_nat (runs (rev DI)) :: 32 word) = 1 + of_nat (runs (rev DI) - 1)"
      by (metis of_nat_Suc)
    then show ?thesis by (simp add: runs_def)
  qed
  also have "(of_nat (runs (rev DI)) :: 32 word) = d"
    using of_nat_unat [of d, where 'a = "32 word"] op(2) by simp
  finally have rc: "recount_depth True (rev DI) (method_of (rev DI ! 0)) 1 (length DI) 1 = Some d" .
  have "emit_lineinfo p DI = Some (Out2, p2)"
    using v ne k0(1) lo(1) cl(1) op(1) c0 rc col
    by (simp add: emit_lineinfo_def ctx_def [symmetric] p1_def [symmetric] p2_def [symmetric])
       (simp add: p2_def)
  with op(2) show ?thesis unfolding p2_def by blast
qed

lemma emit_lineinfo_inv:
  assumes col: "collapse_recursive p"
    and inv: "unat (inline_depth p) = runs (context_vec p)"
    and len: "length DI < 2 ^ 32"
  shows "\<exists>Out p'. emit_lineinfo p DI = Some (Out, p') \<and> collapse_recursive p' \<and>
           unat (inline_depth p') = runs (context_vec p')"
proof (cases "verbosity p = output_none \<or> DI = []")
  case True
  then have "emit_lineinfo p DI = Some ([], p)" by (auto simp: emit_lineinfo_def)
  with col inv show ?thesis by simp
next
  case False
  then have "verbosity p = output_source" "DI \<noteq> []" by (cases "verbosity p"; simp)+
  from emit_lineinfo_source [OF this(1) col inv this(2) len]
  obtain Out d where "emit_lineinfo p DI = Some (Out, p\<lparr>context_vec := rev DI, inline_depth := d\<rparr>)"
     "unat d = runs (rev DI)" by blast
  with col show ?thesis by simp
qed

lemma emit_all_inv:
  assumes "collapse_recursive p"
    and "unat (inline_depth p) = runs (context_vec p)"
    and "\<forall>DI\<in>set DIs. length DI < 2 ^ 32"
  shows "\<exists>Outs p'. emit_all p DIs = Some (Outs, p') \<and> collapse_recursive p' \<and>
           unat (inline_depth p') = runs (context_vec p')"
  using assms
proof (induction DIs arbitrary: p)
  case Nil
  then show ?case by simp
next
  case (Cons DI DIs)
  from Cons.prems(3) have len: "length DI < 2 ^ 32" by simp
  from emit_lineinfo_inv [OF Cons.prems(1,2) len]
  obtain Out p1 where s: "emit_lineinfo p DI = Some (Out, p1)" "collapse_recursive p1"
     "unat (inline_depth p1) = runs (context_vec p1)" by blast
  from Cons.IH [OF s(2,3)] Cons.prems(3)
  obtain Outs p' where r: "emit_all p1 DIs = Some (Outs, p')" "collapse_recursive p'"
     "unat (inline_depth p') = runs (context_vec p')" by auto
  show ?case using s(1) r by simp
qed

text \<open>The definitions that evaluate \<open>emit_lineinfo\<close> on a given context and stack.\<close>

lemmas annot_simps =
  emit_lineinfo_def match_prefix.simps collapse_check_def line_only_check_def
  exclude_combined.simps count_pops.simps close_frames_def print_frame_def
  same_line_frames.simps open_frames.simps recount_depth.simps at_vec_def
  same_method_at_def inlining_indent_def inlining_indent_times_def repeat_def Let_def DILineInfoPrinter_new_def

section \<open>The table: what is recorded, and what keeps its name\<close>

lemma fold_insert_Table:
  "Table (foldl insertAddress st addrs) a =
     (if a \<in> set addrs then Some [] else Table st a)"
  by (induction addrs arbitrary: st) (auto simp: insertAddress_def)

lemma fold_insert_fields:
  "MemObj_data (foldl insertAddress st addrs) = MemObj_data st"
  "MemObj_size (foldl insertAddress st addrs) = MemObj_size st"
  by (induction addrs arbitrary: st) (auto simp: insertAddress_def)

lemma lookupSymbolName_keeps:
  "Table st a \<noteq> None \<Longrightarrow> Table (snd (lookupSymbolName info st x)) a = Table st a"
  by (auto simp: lookupSymbolName_def Let_def split: option.splits)

lemma lookupSymbolName_fields:
  "ip (snd (lookupSymbolName info st x)) = ip st"
  "MemObj_data (snd (lookupSymbolName info st x)) = MemObj_data st"
  "MemObj_size (snd (lookupSymbolName info st x)) = MemObj_size st"
  by (auto simp: lookupSymbolName_def Let_def split: option.splits)

lemma lookup_all_keeps:
  "Table st a \<noteq> None \<Longrightarrow> Table (lookup_all info st xs) a = Table st a"
proof (induction xs arbitrary: st)
  case Nil
  then show ?case by simp
next
  case (Cons x xs)
  have "Table (snd (lookupSymbolName info st x)) a = Table st a"
    using Cons.prems by (rule lookupSymbolName_keeps)
  with Cons show ?case by simp
qed

lemma lookup_all_fields:
  "ip (lookup_all info st xs) = ip st"
  "MemObj_data (lookup_all info st xs) = MemObj_data st"
  "MemObj_size (lookup_all info st xs) = MemObj_size st"
  by (induction xs arbitrary: st) (simp_all add: lookupSymbolName_fields)

lemma createSymbols_fields:
  "ip (createSymbols info st) = ip st"
  "MemObj_data (createSymbols info st) = MemObj_data st"
  "MemObj_size (createSymbols info st) = MemObj_size st"
  by (simp_all add: createSymbols_def)

lemma createSymbols_entry_cong:
  "ip st' = ip st \<Longrightarrow> MemObj_data st' = MemObj_data st \<Longrightarrow> MemObj_size st' = MemObj_size st \<Longrightarrow>
   createSymbols_entry info st' a n = createSymbols_entry info st a n"
  by (simp add: createSymbols_entry_def)

lemma createSymbols_entry_idem:
  "createSymbols_entry info st a (createSymbols_entry info st a n) = createSymbols_entry info st a n"
  by (simp add: createSymbols_entry_def Let_def split: option.splits)

section \<open>The loop: each iteration moves the offset forward\<close>

lemma unat_lt_64: "unat (w :: 64 word) < 18446744073709551616"
  using unsigned_less [of w, where 'a = nat] by simp

lemma annotate_address_fields:
  "annotate_address env pass s = Inr s' \<Longrightarrow>
     Index s' = Index s \<and> insSize s' = insSize s \<and> DisInfo s' = DisInfo s"
  by (auto simp: annotate_address_def Let_def split: if_splits option.splits prod.splits)

lemma declare_label_fields:
  "declare_label env pass s = Inr s' \<Longrightarrow>
     Index s' = Index s \<and> insSize s' = insSize s \<and> dbgctx s' = dbgctx s"
  by (auto simp: declare_label_def Let_def split: if_splits sum.splits option.splits)

lemma declare_label_cases:
  "(\<exists>s'. declare_label env pass s = Inr s') \<or>
   (pass \<noteq> 0 \<and> declare_label env pass s = Inl symbol_already_defined)"
  by (auto simp: declare_label_def lookupSymbol_def Let_def split: option.splits)

lemma case_Success_fields:
  "Index (case_Success env pass I s) = Index s"
  "insSize (case_Success env pass I s) = insSize s"
  by (simp_all add: case_Success_def Let_def split: option.splits prod.splits)

lemma case_SoftFail_fields:
  "Index (case_SoftFail env pass I s) = Index s"
  "insSize (case_SoftFail env pass I s) = insSize s"
  by (simp_all add: case_SoftFail_def Let_def case_Success_fields)

lemma case_Fail_fields:
  "Index (case_Fail env pass s) = Index s"
  "insSize (case_Fail env pass s) =
     (if insSize s = 0 then (if fixed_width_cpu env then 4 else 1) else insSize s)"
  by (simp_all add: case_Fail_def Let_def)

lemma loop_body_Index:
  assumes "loop_body env pass s = Inr s'"
  shows "\<exists>info. Index s' = Index s +
     (let d = getInstruction env pass (Index s) (insSize s) info
      in if status d = Fail \<and> Size d = 0 then (if fixed_width_cpu env then 4 else 1) else Size d)"
proof -
  from assms obtain s1 where a: "annotate_address env pass s = Inr s1"
    by (auto simp: loop_body_def split: sum.splits)
  with assms obtain s2 where l: "declare_label env pass s1 = Inr s2"
    by (auto simp: loop_body_def split: sum.splits)
  note f1 = annotate_address_fields [OF a]
  note f2 = declare_label_fields [OF l]
  define d where "d = getInstruction env pass (Index s) (insSize s) (DisInfo s2)"
  define s3 where "s3 = snd (snd (decode_at env pass s2))"
  have dec: "decode_at env pass s2 = (status d, Inst d, s3)"
    by (simp add: s3_def d_def decode_at_def Let_def f2 f1)
  have f3: "Index s3 = Index s" "insSize s3 = Size d"
    by (simp_all add: s3_def decode_at_def Let_def f2 f1 d_def)
  define s4 where "s4 = switch_status env pass (status d) (Inst d) s3"
  have s': "s' = s4\<lparr>Index := Index s4 + insSize s4\<rparr>"
    using assms a l dec by (simp add: loop_body_def Let_def s4_def)
  have "Index s4 = Index s \<and>
        insSize s4 = (if status d = Fail \<and> Size d = 0 then (if fixed_width_cpu env then 4 else 1) else Size d)"
    by (cases "status d")
       (simp_all add: s4_def switch_status_def case_Fail_fields case_SoftFail_fields
          case_Success_fields f3)
  then show ?thesis
    unfolding s' by (intro exI [of _ "DisInfo s2"]) (simp add: d_def Let_def)
qed

lemma loop_body_progress:
  assumes contract: "\<forall>pass idx sz info. idx < Fsize env \<longrightarrow>
      (status (getInstruction env pass idx sz info) \<noteq> Fail \<longrightarrow>
         Size (getInstruction env pass idx sz info) \<noteq> 0) \<and>
      unat idx + unat (Size (getInstruction env pass idx sz info)) \<le> unat (Fsize env)"
    and room: "unat (Fsize env) + 4 \<le> 2 ^ 64"
    and lt: "Index s < Fsize env"
    and body: "loop_body env pass s = Inr s'"
  shows "unat (Index s) < unat (Index s')"
proof -
  from loop_body_Index [OF body] obtain info where
    i: "Index s' = Index s +
     (let d = getInstruction env pass (Index s) (insSize s) info
      in if status d = Fail \<and> Size d = 0 then (if fixed_width_cpu env then 4 else 1) else Size d)"
    by blast
  define d where "d = getInstruction env pass (Index s) (insSize s) info"
  define step where "step = (if status d = Fail \<and> Size d = 0 then (if fixed_width_cpu env then 4 else 1) else Size d)"
  have i': "Index s' = Index s + step" using i by (simp add: d_def step_def Let_def)
  from contract lt have c: "status d \<noteq> Fail \<longrightarrow> Size d \<noteq> 0"
      "unat (Index s) + unat (Size d) \<le> unat (Fsize env)"
    unfolding d_def by blast+
  have ltn: "unat (Index s) < unat (Fsize env)" using lt by (simp add: word_less_nat_alt)
  have pos: "0 < unat step"
    using c(1) by (auto simp: step_def unat_gt_0)
  have bound: "unat (Index s) + unat step < 2 ^ 64"
  proof (cases "status d = Fail \<and> Size d = 0")
    case True
    then have "unat step \<le> 4" by (simp add: step_def)
    with ltn room show ?thesis by simp
  next
    case False
    then have "step = Size d" by (simp add: step_def)
    with c(2) room show ?thesis by simp
  qed
  then have "unat (Index s + step) = unat (Index s) + unat step"
    by (simp add: unat_word_ariths)
  with pos show ?thesis by (simp add: i')
qed

lemma disasm_loop_within_sound:
  "disasm_loop_within n env pass s = Some r \<Longrightarrow> disasm_loop env pass s = Some r"
proof (induction n arbitrary: s)
  case 0
  then show ?case
    by (subst disasm_loop.simps) (auto split: if_splits)
next
  case (Suc n)
  show ?case
  proof (cases "Index s < Fsize env")
    case False
    with Suc.prems show ?thesis by (subst disasm_loop.simps) simp
  next
    case True
    show ?thesis
    proof (cases "loop_body env pass s")
      case (Inl e)
      with True Suc.prems show ?thesis by (subst disasm_loop.simps) auto
    next
      case (Inr s')
      with True Suc.prems have "disasm_loop_within n env pass s' = Some r" by simp
      from Suc.IH [OF this] Inr True show ?thesis by (subst disasm_loop.simps) simp
    qed
  qed
qed

text \<open>
  The annotator returns normally in every iteration, so an iteration ends normally or with
  the failed assertion of \<open>lookupSymbol\<close>, and that in the emission pass only.
\<close>

lemma emit_lineinfo_ok:
  assumes "printer_ok p" "length DI < 2 ^ 32"
  shows "\<exists>Out p'. emit_lineinfo p DI = Some (Out, p') \<and> printer_ok p'"
  using emit_lineinfo_inv [of p DI] assms by (simp add: printer_ok_def)

lemma annotate_address_ok:
  assumes ok: "printer_ok (dbgctx s)"
    and frames: "\<forall>g a. di_ctx env = Some g \<longrightarrow> length (g a) < 2 ^ 32"
  shows "\<exists>s'. annotate_address env pass s = Inr s' \<and> printer_ok (dbgctx s')"
proof (cases "pass \<noteq> 0 \<and> nextLineAddr s \<noteq> - 1 \<and> Index s + Fptr env + env_slide env = nextLineAddr s")
  case False
  with ok show ?thesis by (auto simp: annotate_address_def)
next
  case c: True
  show ?thesis
  proof (cases "di_ctx env")
    case None
    with c ok show ?thesis by (simp add: annotate_address_def)
  next
    case (Some g)
    define dbg where "dbg = g (Index s + Fptr env + env_slide env)"
    define DI where "DI = (if length dbg \<noteq> 0 then dbg else [snd (line_entry env (di_lineIter s))])"
    have "length DI < 2 ^ 32" using frames Some by (simp add: DI_def dbg_def)
    from emit_lineinfo_ok [OF ok this]
    obtain buf p' where e: "emit_lineinfo (dbgctx s) DI = Some (buf, p')" "printer_ok p'" by blast
    have "annotate_address env pass s =
        Inr (s\<lparr>dbgctx := p', Streamer := Streamer s @ emit_buf buf,
               di_lineIter := di_lineIter s + 1,
               nextLineAddr := fst (line_entry env (di_lineIter s + 1))\<rparr>)"
      using c Some e(1) [unfolded DI_def dbg_def]
      by (auto simp: annotate_address_def Let_def)
    with e(2) show ?thesis by simp
  qed
qed

lemma annotate_address_dbgctx_only:
  "dbgctx (snd (snd (decode_at env pass s))) = dbgctx s"
  "dbgctx (switch_status env pass S I s) = dbgctx s"
  by (simp_all add: decode_at_def switch_status_def case_Fail_def
        case_SoftFail_def case_Success_def Let_def
        split: option.splits prod.splits DecodeStatus.splits)

lemma loop_body_ok:
  assumes ok: "printer_ok (dbgctx s)"
    and frames: "\<forall>g a. di_ctx env = Some g \<longrightarrow> length (g a) < 2 ^ 32"
  shows "(\<exists>s'. loop_body env pass s = Inr s' \<and> printer_ok (dbgctx s')) \<or>
         (pass \<noteq> 0 \<and> loop_body env pass s = Inl symbol_already_defined)"
proof -
  from annotate_address_ok [OF ok frames]
  obtain s1 where a: "annotate_address env pass s = Inr s1" "printer_ok (dbgctx s1)" by blast
  from declare_label_cases [of env pass s1] show ?thesis
  proof
    assume "pass \<noteq> 0 \<and> declare_label env pass s1 = Inl symbol_already_defined"
    with a(1) show ?thesis by (simp add: loop_body_def)
  next
    assume "\<exists>s2. declare_label env pass s1 = Inr s2"
    then obtain s2 where l: "declare_label env pass s1 = Inr s2" by blast
    obtain S I s3 where d: "decode_at env pass s2 = (S, I, s3)"
      by (cases "decode_at env pass s2") auto
    have "dbgctx s3 = dbgctx s1"
      using annotate_address_dbgctx_only(1) [of env pass s2] d declare_label_fields [OF l]
      by simp
    then have "printer_ok (dbgctx (switch_status env pass S I s3))"
      using a(2) by (simp add: annotate_address_dbgctx_only(2))
    then show ?thesis
      using a(1) l d by (simp add: loop_body_def Let_def)
  qed
qed

lemma disasm_loop_within_ends:
  assumes contract: "\<forall>pass idx sz info. idx < Fsize env \<longrightarrow>
      (status (getInstruction env pass idx sz info) \<noteq> Fail \<longrightarrow>
         Size (getInstruction env pass idx sz info) \<noteq> 0) \<and>
      unat idx + unat (Size (getInstruction env pass idx sz info)) \<le> unat (Fsize env)"
    and room: "unat (Fsize env) + 4 \<le> 2 ^ 64"
    and frames: "\<forall>g a. di_ctx env = Some g \<longrightarrow> length (g a) < 2 ^ 32"
  shows "printer_ok (dbgctx s) \<Longrightarrow> unat (Fsize env) - unat (Index s) \<le> n \<Longrightarrow>
         (\<exists>s'. disasm_loop_within n env pass s = Some (Inr s')) \<or>
         (pass \<noteq> 0 \<and> disasm_loop_within n env pass s = Some (Inl symbol_already_defined))"
proof (induction n arbitrary: s)
  case 0
  then have "\<not> Index s < Fsize env" by (simp add: word_less_nat_alt)
  then show ?case by simp
next
  case (Suc n)
  show ?case
  proof (cases "Index s < Fsize env")
    case False
    then show ?thesis by simp
  next
    case True
    from loop_body_ok [OF Suc.prems(1) frames, of pass] show ?thesis
    proof
      assume "pass \<noteq> 0 \<and> loop_body env pass s = Inl symbol_already_defined"
      with True show ?thesis by simp
    next
      assume "\<exists>s1. loop_body env pass s = Inr s1 \<and> printer_ok (dbgctx s1)"
      then obtain s1 where b: "loop_body env pass s = Inr s1" "printer_ok (dbgctx s1)" by blast
      from loop_body_progress [OF contract room True b(1)] Suc.prems(2)
      have "unat (Fsize env) - unat (Index s1) \<le> n" by simp
      from Suc.IH [OF b(2) this] b(1) True show ?thesis by simp
    qed
  qed
qed

lemma pass_begin_ok:
  "\<exists>s0. pass_begin env pass info out = Inr s0 \<and> Index s0 = 0 \<and> printer_ok (dbgctx s0) \<and>
     DisInfo s0 = setPass info pass \<and>
     (\<forall>n. emitLabel n \<in> set (Streamer s0) \<longrightarrow> emitLabel n \<in> set out)"
proof -
  define p0 where "p0 = SetVerbosity (DILineInfoPrinter_new ''; '' True) (debuginfo env)"
  have ok0: "printer_ok p0"
    by (simp add: p0_def printer_ok_def SetVerbosity_def DILineInfoPrinter_new_def runs_def)
  have "length [snd (line_entry env 0)] < (2 :: nat) ^ 32" by simp
  from emit_lineinfo_ok [OF ok0 this]
  obtain buf p' where e: "emit_lineinfo p0 [snd (line_entry env 0)] = Some (buf, p')" "printer_ok p'"
    by blast
  show ?thesis
    using ok0 e by (auto simp: pass_begin_def Let_def p0_def [symmetric] emit_buf_def)
qed

text \<open>With the decoder of \<open>stuck_env\<close> the offset stays at 0.\<close>

lemma stuck_body:
  "Index s = 0 \<Longrightarrow> \<exists>s'. loop_body stuck_env 0 s = Inr s' \<and> Index s' = 0"
  by (simp add: loop_body_def annotate_address_def declare_label_def decode_at_def
        switch_status_def case_Success_def stuck_env_def Let_def)

lemma stuck_loop_None:
  assumes "disasm_loop env pass s = Some y"
  shows "\<not> (env = stuck_env \<and> pass = 0 \<and> Index s = 0)"
proof (rule disasm_loop.raw_induct
        [where P = "\<lambda>env pass s y. \<not> (env = stuck_env \<and> pass = 0 \<and> Index s = 0)", OF _ assms])
  fix loop :: "disasm_env \<Rightarrow> int \<Rightarrow> loop_state \<Rightarrow> (error + loop_state) option"
  fix env pass s y
  assume ih: "\<And>env pass s y. loop env pass s = Some y \<Longrightarrow>
                \<not> (env = stuck_env \<and> pass = 0 \<and> Index s = 0)"
    and unf: "(if Index s < Fsize env
               then case loop_body env pass s of Inl e \<Rightarrow> Some (Inl e)
                    | Inr s' \<Rightarrow> loop env pass s'
               else Some (Inr s)) = Some y"
  show "\<not> (env = stuck_env \<and> pass = 0 \<and> Index s = 0)"
  proof
    assume a: "env = stuck_env \<and> pass = 0 \<and> Index s = 0"
    then obtain s' where b: "loop_body stuck_env 0 s = Inr s'" "Index s' = 0"
      using stuck_body by blast
    have "Index s < Fsize stuck_env" using a by (simp add: stuck_env_def)
    with unf a b have "loop stuck_env 0 s' = Some y" by simp
    from ih [OF this] b(2) show False by simp
  qed
qed

text \<open>The operand loop only appends to the events of the streamer.\<close>

lemma symbolicate_operands_append:
  "symbolicate_operands env pc ops info out =
     (fst (symbolicate_operands env pc ops info []),
      out @ snd (symbolicate_operands env pc ops info []))"
proof (induction ops arbitrary: info out)
  case Nil
  show ?case by simp
next
  case (Cons OpI rest)
  show ?case
  proof (cases "isImm OpI")
    case False
    then show ?thesis using Cons.IH [of info out] by simp
  next
    case True
    define imm where "imm = (if OperandType_PCREL OpI then getImm OpI + pc else getImm OpI)"
    obtain name info' where l: "lookupSymbolName (jl_getFunctionInfo env) info imm = (name, info')"
      by (cases "lookupSymbolName (jl_getFunctionInfo env) info imm")
    show ?thesis
    proof (cases name)
      case None
      with True l show ?thesis using Cons.IH [of info' out]
        by (simp add: imm_def [symmetric] Let_def)
    next
      case (Some n)
      have "symbolicate_operands env pc (OpI # rest) info out =
            symbolicate_operands env pc rest info' (out @ [AddComment n])"
        using True l Some by (simp add: imm_def [symmetric] Let_def)
      moreover have "symbolicate_operands env pc (OpI # rest) info [] =
            symbolicate_operands env pc rest info' [AddComment n]"
        using True l Some by (simp add: imm_def [symmetric] Let_def)
      ultimately show ?thesis
        using Cons.IH [of info' "out @ [AddComment n]"] Cons.IH [of info' "[AddComment n]"]
        by simp
    qed
  qed
qed

section \<open>The labels: when no name is declared twice\<close>

text \<open>
  In the emission pass the table grows by lookups only, which leave the entries they find,
  so the name found at an offset is \<open>name_at\<close> of the table the pass started with; and
  every label emitted so far names an offset before the current one.
\<close>

lemma name_at_eq:
  "name_at env info a =
     (case Table info a of
        Some second \<Rightarrow> second
      | None \<Rightarrow>
          (if getSymbolNameAt info (a + slide info) = []
           then (case jl_getFunctionInfo env a of Some global \<Rightarrow> global | None \<Rightarrow> [])
           else getSymbolNameAt info (a + slide info)))"
  by (simp add: name_at_def lookupSymbolName_def c_str_or_null_def lookupLocalPC_def Let_def
        split: option.splits)

lemma table_inv_start: "table_inv env info info"
  by (simp add: table_inv_def name_at_eq)

lemma table_inv_fields:
  "Table st' = Table st \<Longrightarrow> object st' = object st \<Longrightarrow> slide st' = slide st \<Longrightarrow>
   table_inv env info st' = table_inv env info st"
  by (simp add: table_inv_def)

lemma table_inv_lookup:
  assumes "table_inv env info st"
  shows "table_inv env info (snd (lookupSymbolName (jl_getFunctionInfo env) st x))"
proof (cases "Table st x")
  case (Some n)
  with assms show ?thesis by (simp add: lookupSymbolName_def)
next
  case None
  with assms have "Table info x = None" by (auto simp: table_inv_def)
  then have n: "name_at env info x =
      (if getSymbolNameAt info (x + slide info) = []
       then (case jl_getFunctionInfo env x of Some global \<Rightarrow> global | None \<Rightarrow> [])
       else getSymbolNameAt info (x + slide info))"
    by (simp add: name_at_eq)
  have g: "getSymbolNameAt st y = getSymbolNameAt info y" for y
    using assms by (simp add: getSymbolNameAt_def table_inv_def)
  show ?thesis
    using assms None n
    by (auto simp: table_inv_def lookupSymbolName_def lookupLocalPC_def Let_def g)
qed

lemma table_inv_lookup_all:
  "table_inv env info st \<Longrightarrow> table_inv env info (lookup_all (jl_getFunctionInfo env) st xs)"
  by (induction xs arbitrary: st) (simp_all add: table_inv_lookup)

lemma symbolicate_operands_inv:
  "table_inv env info st \<Longrightarrow>
   table_inv env info (fst (symbolicate_operands env pc ops st out)) \<and>
   (\<forall>n. emitLabel n \<in> set (snd (symbolicate_operands env pc ops st out)) \<longrightarrow> emitLabel n \<in> set out)"
proof (induction ops arbitrary: st out)
  case Nil
  then show ?case by simp
next
  case (Cons OpI rest)
  show ?case
  proof (cases "isImm OpI")
    case False
    then show ?thesis using Cons.IH [OF Cons.prems, of out] by simp
  next
    case True
    define imm where "imm = (if OperandType_PCREL OpI then getImm OpI + pc else getImm OpI)"
    obtain name st' where l: "lookupSymbolName (jl_getFunctionInfo env) st imm = (name, st')"
      by (cases "lookupSymbolName (jl_getFunctionInfo env) st imm")
    have t: "table_inv env info st'"
      using table_inv_lookup [OF Cons.prems, of imm] l by simp
    define out' where "out' = (case name of Some n \<Rightarrow> out @ [AddComment n] | None \<Rightarrow> out)"
    have e: "symbolicate_operands env pc (OpI # rest) st out = symbolicate_operands env pc rest st' out'"
      using True l by (simp add: imm_def [symmetric] Let_def out'_def)
    have "\<forall>n. emitLabel n \<in> set out' \<longrightarrow> emitLabel n \<in> set out"
      by (simp add: out'_def split: option.splits)
    with Cons.IH [OF t, of out'] show ?thesis unfolding e by blast
  qed
qed

lemma switch_status_inv:
  assumes "table_inv env info (DisInfo s)" and "pass \<noteq> 0"
  shows "table_inv env info (DisInfo (switch_status env pass S I s)) \<and>
         (\<forall>n. emitLabel n \<in> set (Streamer (switch_status env pass S I s)) \<longrightarrow>
              emitLabel n \<in> set (Streamer s))"
proof -
  have suc: "table_inv env info (DisInfo (case_Success env pass I s')) \<and>
         (\<forall>n. emitLabel n \<in> set (Streamer (case_Success env pass I s')) \<longrightarrow>
              emitLabel n \<in> set (Streamer s'))"
    if "table_inv env info (DisInfo s')" for s'
    using symbolicate_operands_inv [OF that, of "Fptr env + Index s'" "Operands I" "Streamer s'"] assms(2)
    by (auto simp: case_Success_def Let_def split: prod.splits)
  show ?thesis
  proof (cases S)
    case Fail
    with assms show ?thesis by (simp add: switch_status_def case_Fail_def Let_def)
  next
    case SoftFail
    define s1 where "s1 = s\<lparr>Streamer := Streamer s @ [emitRawText ''potentially undefined instruction encoding:'']\<rparr>"
    have "table_inv env info (DisInfo s1)" using assms(1) by (simp add: s1_def)
    from suc [OF this] SoftFail assms(2) show ?thesis
      by (simp add: switch_status_def case_SoftFail_def s1_def)
  next
    case Success
    with suc [OF assms(1)] show ?thesis by (simp add: switch_status_def)
  qed
qed

lemma decode_at_inv:
  assumes "table_inv env info (DisInfo s)"
    and "\<forall>pass idx sz st. \<exists>addrs.
        Info (getInstruction env pass idx sz st) = lookup_all (jl_getFunctionInfo env) st addrs"
    and "decode_at env pass s = (S, I, s')"
  shows "table_inv env info (DisInfo s') \<and>
         (\<forall>n. emitLabel n \<in> set (Streamer s') \<longrightarrow> emitLabel n \<in> set (Streamer s))"
proof -
  from assms(2) obtain addrs where
    "Info (getInstruction env pass (Index s) (insSize s) (DisInfo s)) =
       lookup_all (jl_getFunctionInfo env) (DisInfo s) addrs"
    by blast
  with table_inv_lookup_all [OF assms(1), of addrs] assms(3) show ?thesis
    by (auto simp: decode_at_def Let_def split: if_splits)
qed

lemma annotate_address_labels:
  "annotate_address env pass s = Inr s' \<Longrightarrow>
     (\<forall>n. emitLabel n \<in> set (Streamer s') \<longrightarrow> emitLabel n \<in> set (Streamer s))"
  by (auto simp: annotate_address_def Let_def emit_buf_def split: if_splits option.splits prod.splits)

lemma loop_body_labels:
  assumes contract: "\<forall>pass idx sz info. idx < Fsize env \<longrightarrow>
      (status (getInstruction env pass idx sz info) \<noteq> Fail \<longrightarrow>
         Size (getInstruction env pass idx sz info) \<noteq> 0) \<and>
      unat idx + unat (Size (getInstruction env pass idx sz info)) \<le> unat (Fsize env)"
    and room: "unat (Fsize env) + 4 \<le> 2 ^ 64"
    and lookups: "\<forall>pass idx sz st. \<exists>addrs.
        Info (getInstruction env pass idx sz st) = lookup_all (jl_getFunctionInfo env) st addrs"
    and inj: "\<forall>i j. i < Fsize env \<and> j < Fsize env \<and> name_at env info (Fptr env + i) \<noteq> [] \<and>
            name_at env info (Fptr env + i) = name_at env info (Fptr env + j) \<longrightarrow> i = j"
    and pass: "pass \<noteq> 0"
    and inv: "labels_inv env info s"
    and lt: "Index s < Fsize env"
  shows "loop_body env pass s \<noteq> Inl symbol_already_defined \<and>
         (\<forall>s'. loop_body env pass s = Inr s' \<longrightarrow> labels_inv env info s')"
proof (cases "annotate_address env pass s")
  case (Inl e)
  then have "e = annotator_abort"
    by (auto simp: annotate_address_def Let_def split: if_splits option.splits prod.splits)
  with Inl show ?thesis by (simp add: loop_body_def)
next
  case (Inr s1)
  note f1 = annotate_address_fields [OF Inr]
  note l1 = annotate_address_labels [OF Inr]
  from inv have T: "table_inv env info (DisInfo s)"
    and E: "\<forall>n. emitLabel n \<in> set (Streamer s) \<longrightarrow>
          (\<exists>j. j < Index s \<and> j < Fsize env \<and> n = name_at env info (Fptr env + j))"
    by (simp_all add: labels_inv_def)
  define st where "st = setIP (DisInfo s1) (Fptr env + Index s1)"
  have Tst: "table_inv env info st"
    using T f1 by (simp add: st_def setIP_def table_inv_def)
  have undefined_here: "Ctx_isUndefined (Streamer s1) n"
    if n: "Table st (Fptr env + Index s) = Some n" "n \<noteq> []" for n
  proof (rule ccontr)
    assume "\<not> Ctx_isUndefined (Streamer s1) n"
    then have "emitLabel n \<in> set (Streamer s)" using l1 by (simp add: Ctx_isUndefined_def)
    with E obtain j where j: "j < Index s" "j < Fsize env" "n = name_at env info (Fptr env + j)"
      by blast
    from Tst n(1) have "n = name_at env info (Fptr env + Index s)" by (simp add: table_inv_def)
    with inj lt j n(2) have "Index s = j" by metis
    with j(1) show False by simp
  qed
  have Tbl: "Table st = Table (DisInfo s)" using f1 by (simp add: st_def setIP_def)
  have no_abort: "declare_label env pass s1 \<noteq> Inl symbol_already_defined"
    using undefined_here [unfolded Tbl] f1 pass
    by (auto simp: declare_label_def lookupSymbol_def Let_def setIP_def
             split: option.splits)
  show ?thesis
  proof (cases "declare_label env pass s1")
    case (Inl e)
    with declare_label_cases [of env pass s1] no_abort show ?thesis by auto
  next
    case l: (Inr s2)
    have T2: "table_inv env info (DisInfo s2)"
      using l Tst
      by (auto simp: declare_label_def Let_def st_def split: if_splits sum.splits option.splits)
    have E2: "\<forall>n. emitLabel n \<in> set (Streamer s2) \<longrightarrow>
          (\<exists>j. j \<le> Index s \<and> j < Fsize env \<and> n = name_at env info (Fptr env + j))"
    proof (intro allI impI)
      fix n assume m: "emitLabel n \<in> set (Streamer s2)"
      show "\<exists>j. j \<le> Index s \<and> j < Fsize env \<and> n = name_at env info (Fptr env + j)"
      proof (cases "emitLabel n \<in> set (Streamer s1)")
        case True
        with l1 E obtain j where "j < Index s" "j < Fsize env" "n = name_at env info (Fptr env + j)"
          by blast
        then show ?thesis by (intro exI [of _ j]) simp
      next
        case False
        with m l have "Table st (Fptr env + Index s) = Some n"
          using f1
          by (auto simp: declare_label_def lookupSymbol_def Let_def st_def setIP_def
                   split: if_splits sum.splits option.splits)
        with Tst have "n = name_at env info (Fptr env + Index s)" by (simp add: table_inv_def)
        with lt show ?thesis by (intro exI [of _ "Index s"]) simp
      qed
    qed
    obtain S I s3 where d: "decode_at env pass s2 = (S, I, s3)"
      by (cases "decode_at env pass s2") auto
    note i3 = decode_at_inv [OF T2 lookups d]
    define s4 where "s4 = switch_status env pass S I s3"
    note i4 = switch_status_inv [OF i3 [THEN conjunct1] pass, of S I, folded s4_def]
    define s' where "s' = s4\<lparr>Index := Index s4 + insSize s4\<rparr>"
    have b: "loop_body env pass s = Inr s'"
      using Inr l d by (simp add: loop_body_def Let_def s4_def s'_def)
    from loop_body_progress [OF contract room lt b]
    have p: "unat (Index s) < unat (Index s')" .
    have "labels_inv env info s'"
      unfolding labels_inv_def
    proof (intro conjI allI impI)
      show "table_inv env info (DisInfo s')" using i4 by (simp add: s'_def)
    next
      fix n assume "emitLabel n \<in> set (Streamer s')"
      then have "emitLabel n \<in> set (Streamer s2)" using i4 i3 by (simp add: s'_def)
      with E2 obtain j where j: "j \<le> Index s" "j < Fsize env" "n = name_at env info (Fptr env + j)"
        by blast
      from j(1) p have "j < Index s'" by (simp add: word_less_nat_alt word_le_nat_alt)
      with j show "\<exists>j. j < Index s' \<and> j < Fsize env \<and> n = name_at env info (Fptr env + j)"
        by blast
    qed
    with b show ?thesis by simp
  qed
qed

lemma disasm_loop_within_labels:
  assumes contract: "\<forall>pass idx sz info. idx < Fsize env \<longrightarrow>
      (status (getInstruction env pass idx sz info) \<noteq> Fail \<longrightarrow>
         Size (getInstruction env pass idx sz info) \<noteq> 0) \<and>
      unat idx + unat (Size (getInstruction env pass idx sz info)) \<le> unat (Fsize env)"
    and room: "unat (Fsize env) + 4 \<le> 2 ^ 64"
    and lookups: "\<forall>pass idx sz st. \<exists>addrs.
        Info (getInstruction env pass idx sz st) = lookup_all (jl_getFunctionInfo env) st addrs"
    and inj: "\<forall>i j. i < Fsize env \<and> j < Fsize env \<and> name_at env info (Fptr env + i) \<noteq> [] \<and>
            name_at env info (Fptr env + i) = name_at env info (Fptr env + j) \<longrightarrow> i = j"
    and pass: "pass \<noteq> 0"
  shows "labels_inv env info s \<Longrightarrow> disasm_loop_within n env pass s \<noteq> Some (Inl symbol_already_defined)"
proof (induction n arbitrary: s)
  case 0
  then show ?case by simp
next
  case (Suc n)
  show ?case
  proof (cases "Index s < Fsize env")
    case False
    then show ?thesis by simp
  next
    case True
    note b = loop_body_labels [OF contract room lookups inj pass Suc.prems True]
    show ?thesis
    proof (cases "loop_body env pass s")
      case (Inl e)
      with b True show ?thesis by auto
    next
      case (Inr s')
      with b have "labels_inv env info s'" by simp
      from Suc.IH [OF this] Inr True show ?thesis by simp
    qed
  qed
qed

text \<open>
  The assertion at work, and a run of the emission pass of the sample with the table its
  first pass leaves; with one name at two offsets, the same pass stops at the second.
\<close>

lemma lookupSymbol_defined_aborts:
  "Table st addr = Some name \<Longrightarrow> name \<noteq> [] \<Longrightarrow> emitLabel name \<in> set out \<Longrightarrow>
   lookupSymbol (Ctx_isUndefined out) st addr = Inl symbol_already_defined"
  by (simp add: lookupSymbol_def Ctx_isUndefined_def)

lemma sample_emission:
  "\<exists>s. run_pass sample_env 1
        (createSymbols (\<lambda>addr. None)
           (setIP (insertAddress (SymbolTable_new None 0 0x1000 8) 0x1000) 0x1000)) [] = Some (Inr s) \<and>
       Streamer s =
         [emitLabel ''L0'', emitRawText (CHR 0x09 # ''.long'' @ CHR 0x09 # ''0x00000000''),
          AddComment ''L0'', emitInstruction call_inst]"
proof -
  have t: "createSymbols (\<lambda>addr. None)
           (setIP (insertAddress (SymbolTable_new None 0 0x1000 8) 0x1000) 0x1000) =
   \<lparr>Table = [0x1000 \<mapsto> ''L0''], MemObj_data = 0x1000, MemObj_size = 8, Pass = 0,
      object = None, ip = 0x1000, slide = 0\<rparr>"
    by (auto simp: createSymbols_def createSymbols_entry_def setIP_def insertAddress_def
          SymbolTable_new_def write_dec.simps digit_char_def Let_def)
  show ?thesis
    unfolding t
    apply (simp add: run_pass_def pass_begin_def sample_env_def Let_def setPass_def)
    apply (subst disasm_loop.simps)
    apply (simp add: loop_body_def annotate_address_def declare_label_def lookupSymbol_def
        Ctx_isUndefined_def decode_at_def switch_status_def case_Fail_def case_Success_def
        setIP_def Let_def lookupSymbolName_def c_str_or_null_def call_inst_def pass_end_def)
    apply (subst disasm_loop.simps)
    apply (simp add: loop_body_def annotate_address_def declare_label_def lookupSymbol_def
        Ctx_isUndefined_def decode_at_def switch_status_def case_Fail_def case_Success_def
        setIP_def Let_def lookupSymbolName_def c_str_or_null_def call_inst_def pass_end_def)
    apply (subst disasm_loop.simps)
    apply (simp add: loop_body_def annotate_address_def declare_label_def lookupSymbol_def
        Ctx_isUndefined_def decode_at_def switch_status_def case_Fail_def case_Success_def
        setIP_def Let_def lookupSymbolName_def c_str_or_null_def call_inst_def pass_end_def)
    done
qed

lemma same_name_twice_aborts:
  "run_pass sample_env 1
     \<lparr>Table = [0x1000 \<mapsto> ''julia_f'', 0x1004 \<mapsto> ''julia_f''], MemObj_data = 0x1000,
      MemObj_size = 8, Pass = 0, object = None, ip = 0x1000, slide = 0\<rparr> [] =
   Some (Inl symbol_already_defined)"
  apply (simp add: run_pass_def pass_begin_def sample_env_def Let_def setPass_def)
  apply (subst disasm_loop.simps)
  apply (simp add: loop_body_def annotate_address_def declare_label_def lookupSymbol_def
      Ctx_isUndefined_def decode_at_def switch_status_def case_Fail_def case_Success_def
      setIP_def Let_def lookupSymbolName_def c_str_or_null_def call_inst_def pass_end_def)
  apply (subst disasm_loop.simps)
  apply (simp add: loop_body_def annotate_address_def declare_label_def lookupSymbol_def
      Ctx_isUndefined_def decode_at_def switch_status_def case_Fail_def case_Success_def
      setIP_def Let_def lookupSymbolName_def c_str_or_null_def call_inst_def pass_end_def)
  done

section \<open>The claims\<close>

text \<open>
  Claim C1. Every address recorded in the first pass (by \<open>insertAddress\<close>, into the table
  of a fresh \<open>SymbolTable\<close>) is named by \<open>createSymbols\<close>, run with the instruction
  pointer at the base of the range: \<open>L\<close> followed by the decimal offset from the base when
  the address lies in the range, else the name the runtime lookup gives when that is not
  empty, else the empty name. The range is \<open>[fptr, fptr + fsize)\<close>, which does not wrap
  around the end of the address space.
\<close>

theorem createSymbols_names:
  fixes fptr fsize :: "64 word"
  assumes nowrap: "unat fptr + unat fsize < 2 ^ 64"
    and rec: "a \<in> set addrs"
  shows "Table (createSymbols info
            (setIP (foldl insertAddress (SymbolTable_new obj sl fptr fsize) addrs) fptr)) a =
     Some (if unat fptr \<le> unat a \<and> unat a < unat fptr + unat fsize
           then ''L'' @ write_dec (unat a - unat fptr)
           else (case info a of
                   Some global \<Rightarrow> if global \<noteq> [] then global else []
                 | None \<Rightarrow> []))"
proof -
  define st where "st = foldl insertAddress (SymbolTable_new obj sl fptr fsize) addrs"
  have T: "Table st a = Some []" using rec by (simp add: st_def fold_insert_Table)
  have F: "MemObj_data st = fptr" "MemObj_size st = fsize"
    by (simp_all add: st_def fold_insert_fields SymbolTable_new_def)
  have sum: "unat (fptr + fsize) = unat fptr + unat fsize"
    using nowrap by (simp add: unat_word_ariths)
  have rng: "(fptr \<le> a \<and> a < fptr + fsize) \<longleftrightarrow> (unat fptr \<le> unat a \<and> unat a < unat fptr + unat fsize)"
    by (simp add: word_le_nat_alt word_less_nat_alt sum)
  have rel: "fptr \<le> a \<Longrightarrow> unat (a - fptr) = unat a - unat fptr"
    by (simp add: unat_sub)
  show ?thesis
    unfolding st_def [symmetric]
    using T F rng rel
    by (auto simp: createSymbols_def createSymbols_entry_def lookupLocalPC_def setIP_def Let_def
             split: option.splits)
qed

theorem createSymbols_names_witness:
  "Table (createSymbols (\<lambda>a. if a = 0x2000 then Some ''jl_apply'' else None)
            (setIP (foldl insertAddress (SymbolTable_new None 0 0x1000 8) [0x1004, 0x2000]) 0x1000))
     0x1004 = Some ''L4''"
  using createSymbols_names [of "0x1000" "8" "0x1004" "[0x1004, 0x2000]"
          "\<lambda>a. if a = 0x2000 then Some ''jl_apply'' else None" None 0]
  by (simp add: write_dec.simps digit_char_def)

text \<open>
  Claim C2 says that \<open>lookupSymbolName\<close> names an address it has not seen with the rule of
  \<open>createSymbols\<close>, an offset label inside the range. It does not: for the address
  \<open>0x1004\<close> of the range \<open>[0x1000, 0x1008)\<close>, not recorded in the first pass,
  \<open>lookupSymbolName\<close> gives the name of the runtime lookup, where the rule of
  \<open>createSymbols\<close> gives \<open>L4\<close>.
\<close>

theorem lookupSymbolName_no_offset_label:
  "fst (lookupSymbolName (\<lambda>addr. Some ''julia_f'')
          (createSymbols (\<lambda>addr. Some ''julia_f'')
             (setIP (SymbolTable_new None 0 0x1000 8) 0x1000)) 0x1004) = Some ''julia_f'' \<and>
   createSymbols_entry (\<lambda>addr. Some ''julia_f'')
     (setIP (SymbolTable_new None 0 0x1000 8) 0x1000) 0x1004 [] = ''L4''"
  by (simp add: lookupSymbolName_def createSymbols_def createSymbols_entry_def setIP_def
        SymbolTable_new_def getSymbolNameAt_def lookupLocalPC_def c_str_or_null_def
        write_dec.simps digit_char_def Let_def)

text \<open>
  Claim C2, as amended. For an address with no entry in the table, \<open>lookupSymbolName\<close>
  takes the name of the object file's symbol at \<open>addr + slide\<close> when there is one, else
  the name the runtime lookup gives, else the empty name (an offset label is never made
  here); it stores that name under the address and returns it, or no name when it is empty.
  For an address that has an entry, as every address named by \<open>createSymbols\<close> has, it
  returns the name of the entry and leaves the table as it is. So a second lookup of an
  address returns what the first returned, and changes nothing.
\<close>

theorem lookupSymbolName_on_demand:
  "(Table st addr = None \<longrightarrow>
      lookupSymbolName info st addr =
        (c_str_or_null
           (if getSymbolNameAt st (addr + slide st) \<noteq> [] then getSymbolNameAt st (addr + slide st)
            else case info addr of Some global \<Rightarrow> global | None \<Rightarrow> []),
         st\<lparr>Table := (Table st)(addr \<mapsto>
           (if getSymbolNameAt st (addr + slide st) \<noteq> [] then getSymbolNameAt st (addr + slide st)
            else case info addr of Some global \<Rightarrow> global | None \<Rightarrow> []))\<rparr>)) \<and>
   (\<forall>second. Table st addr = Some second \<longrightarrow>
      lookupSymbolName info st addr = (c_str_or_null second, st)) \<and>
   lookupSymbolName info (snd (lookupSymbolName info st addr)) addr =
     (fst (lookupSymbolName info st addr), snd (lookupSymbolName info st addr))"
  by (cases "Table st addr") (simp_all add: lookupSymbolName_def lookupLocalPC_def Let_def)

theorem lookupSymbolName_on_demand_witness:
  "lookupSymbolName (\<lambda>addr. Some ''julia_f'') (SymbolTable_new None 0 0x1000 8) 0x1004 =
     (Some ''julia_f'',
      (SymbolTable_new None 0 0x1000 8)\<lparr>Table := Map.empty(0x1004 \<mapsto> ''julia_f'')\<rparr>) \<and>
   lookupSymbolName (\<lambda>addr. Some ''julia_f'')
     (createSymbols (\<lambda>addr. Some ''julia_f'')
        (setIP (insertAddress (SymbolTable_new None 0 0x1000 8) 0x1004) 0x1000)) 0x1004 =
     (Some ''L4'',
      createSymbols (\<lambda>addr. Some ''julia_f'')
        (setIP (insertAddress (SymbolTable_new None 0 0x1000 8) 0x1004) 0x1000))"
proof -
  note a = lookupSymbolName_on_demand [of "SymbolTable_new None 0 0x1000 8" "0x1004"
              "\<lambda>addr. Some ''julia_f''", THEN conjunct1]
  note b = lookupSymbolName_on_demand [of "createSymbols (\<lambda>addr. Some ''julia_f'')
        (setIP (insertAddress (SymbolTable_new None 0 0x1000 8) 0x1004) 0x1000)" "0x1004"
              "\<lambda>addr. Some ''julia_f''", THEN conjunct2, THEN conjunct1, rule_format, of "''L4''"]
  have "lookupSymbolName (\<lambda>addr. Some ''julia_f'') (SymbolTable_new None 0 0x1000 8) 0x1004 =
     (Some ''julia_f'',
      (SymbolTable_new None 0 0x1000 8)\<lparr>Table := Map.empty(0x1004 \<mapsto> ''julia_f'')\<rparr>)"
    using a by (simp add: SymbolTable_new_def getSymbolNameAt_def c_str_or_null_def)
  moreover have "lookupSymbolName (\<lambda>addr. Some ''julia_f'')
     (createSymbols (\<lambda>addr. Some ''julia_f'')
        (setIP (insertAddress (SymbolTable_new None 0 0x1000 8) 0x1004) 0x1000)) 0x1004 =
     (Some ''L4'',
      createSymbols (\<lambda>addr. Some ''julia_f'')
        (setIP (insertAddress (SymbolTable_new None 0 0x1000 8) 0x1004) 0x1000))"
    using b
    by (simp add: createSymbols_def createSymbols_entry_def setIP_def insertAddress_def
          SymbolTable_new_def c_str_or_null_def write_dec.simps digit_char_def)
  ultimately show ?thesis by simp
qed

text \<open>
  Claim C3. Starting from a new printer, with any verbosity set, every sequence of calls of
  \<open>emit_lineinfo\<close> on frame stacks (each of fewer than \<open>2^32\<close> frames) returns
  normally, so the assertion that ends \<open>emit_lineinfo\<close> holds in every call, and leaves
  \<open>inline_depth\<close> equal to the number of runs of method names in the context.
\<close>

theorem inline_depth_counts_runs:
  assumes "\<forall>DI\<in>set DIs. length DI < 2 ^ 32"
  shows "\<exists>Outs p'. emit_all (SetVerbosity (DILineInfoPrinter_new ls bo) v) DIs = Some (Outs, p') \<and>
           unat (inline_depth p') = runs (context_vec p')"
proof -
  define p0 where "p0 = SetVerbosity (DILineInfoPrinter_new ls bo) v"
  have "collapse_recursive p0" "unat (inline_depth p0) = runs (context_vec p0)"
    by (simp_all add: p0_def SetVerbosity_def DILineInfoPrinter_new_def runs_def)
  from emit_all_inv [OF this assms] show ?thesis unfolding p0_def by blast
qed

theorem inline_depth_counts_runs_witness:
  "\<exists>Outs p'. emit_all (SetVerbosity (DILineInfoPrinter_new ''; '' True) ''source'')
       [[frame_at ''g'' ''a.jl'' 2, frame_at ''f'' ''a.jl'' 1], [frame_at ''f'' ''a.jl'' 3]] = Some (Outs, p') \<and>
     unat (inline_depth p') = runs (context_vec p')"
  using inline_depth_counts_runs
          [of "[[frame_at ''g'' ''a.jl'' 2, frame_at ''f'' ''a.jl'' 1], [frame_at ''f'' ''a.jl'' 3]]"
              "''; ''" True "''source''"]
  by simp

text \<open>
  Claim C4 says that the loop of a pass ends within as many iterations as the range has
  bytes, whatever the decoder does. With a decoder that reports success and a size of zero
  the offset never moves: on a range of one byte the first pass does not return.
\<close>

theorem stuck_decoder_loop_never_returns:
  "run_pass stuck_env 0 (SymbolTable_new None 0 0x1000 1) [] = None"
proof -
  obtain s0 where s0: "pass_begin stuck_env 0 (SymbolTable_new None 0 0x1000 1) [] = Inr s0"
      "Index s0 = 0"
    by (simp add: pass_begin_def Let_def)
  have "disasm_loop stuck_env 0 s0 = None"
  proof (rule ccontr)
    assume "disasm_loop stuck_env 0 s0 \<noteq> None"
    then obtain y where "disasm_loop stuck_env 0 s0 = Some y" by blast
    from stuck_loop_None [OF this] s0(2) show False by simp
  qed
  with s0(1) show ?thesis by (simp add: run_pass_def)
qed

text \<open>
  Claim C4, as amended. Let the decoder, at every offset inside the range, report a size that
  is at most the number of bytes left, and not zero when its status is \<open>Success\<close> or
  \<open>SoftFail\<close>; let the size of the range be at most \<open>2^64 - 4\<close> and every frame
  stack of the debug information hold fewer than \<open>2^32\<close> frames. Then the loop of either
  pass ends within as many iterations as the range has bytes, and every iteration that
  returns moves the offset forward; after a \<open>Fail\<close> the loop goes on (one byte further
  when the decoder reported no size, four on the fixed-width CPUs). The loop ends normally,
  or with the failed assertion of \<open>lookupSymbol\<close>, which stops the pass when a name is
  declared as a label for the second time. It ends normally in the first pass, which
  declares no label, and in the emission pass when no label can be declared twice
  (\<open>labels_distinct\<close>).
\<close>

theorem run_pass_terminates:
  assumes "\<forall>pass idx sz info. idx < Fsize env \<longrightarrow>
      (status (getInstruction env pass idx sz info) \<noteq> Fail \<longrightarrow>
         Size (getInstruction env pass idx sz info) \<noteq> 0) \<and>
      unat idx + unat (Size (getInstruction env pass idx sz info)) \<le> unat (Fsize env)"
    and "unat (Fsize env) + 4 \<le> 2 ^ 64"
    and "\<forall>g a. di_ctx env = Some g \<longrightarrow> length (g a) < 2 ^ 32"
  shows "\<exists>s0 r. pass_begin env pass info out = Inr s0 \<and>
           disasm_loop_within (unat (Fsize env)) env pass s0 = Some r \<and>
           disasm_loop env pass s0 = Some r \<and>
           run_pass env pass info out =
             Some (case r of Inl e \<Rightarrow> Inl e | Inr s' \<Rightarrow> Inr (pass_end env pass s')) \<and>
           (r = Inl symbol_already_defined \<or> (\<exists>s'. r = Inr s')) \<and>
           (pass = 0 \<or> labels_distinct env info out \<longrightarrow> (\<exists>s'. r = Inr s')) \<and>
           (\<forall>s s'. Index s < Fsize env \<and> loop_body env pass s = Inr s' \<longrightarrow>
                unat (Index s) < unat (Index s'))"
proof -
  from pass_begin_ok [of env pass info out]
  obtain s0 where b: "pass_begin env pass info out = Inr s0" "Index s0 = 0" "printer_ok (dbgctx s0)"
      "DisInfo s0 = setPass info pass"
      "\<forall>n. emitLabel n \<in> set (Streamer s0) \<longrightarrow> emitLabel n \<in> set out"
    by blast
  from disasm_loop_within_ends [OF assms b(3), of "unat (Fsize env)" pass] b(2)
  obtain r where w: "disasm_loop_within (unat (Fsize env)) env pass s0 = Some r"
    and r: "(\<exists>s'. r = Inr s') \<or> (pass \<noteq> 0 \<and> r = Inl symbol_already_defined)"
    by auto
  from disasm_loop_within_sound [OF w] have l: "disasm_loop env pass s0 = Some r" .
  have run: "run_pass env pass info out =
      Some (case r of Inl e \<Rightarrow> Inl e | Inr s' \<Rightarrow> Inr (pass_end env pass s'))"
    using b(1) l by (simp add: run_pass_def split: sum.splits)
  have normal: "\<exists>s'. r = Inr s'" if d: "labels_distinct env info out" and p: "pass \<noteq> 0"
  proof -
    from d have u: "\<forall>name. emitLabel name \<notin> set out"
      and lookups: "\<forall>pass idx sz st. \<exists>addrs.
        Info (getInstruction env pass idx sz st) = lookup_all (jl_getFunctionInfo env) st addrs"
      and inj: "\<forall>i j. i < Fsize env \<and> j < Fsize env \<and> name_at env info (Fptr env + i) \<noteq> [] \<and>
            name_at env info (Fptr env + i) = name_at env info (Fptr env + j) \<longrightarrow> i = j"
      unfolding labels_distinct_def Ctx_isUndefined_def by blast+
    have "table_inv env info (DisInfo s0)"
      using table_inv_start [of env info] by (simp add: b(4) setPass_def table_inv_def)
    then have "labels_inv env info s0" using b(5) u by (simp add: labels_inv_def)
    from disasm_loop_within_labels [OF assms(1,2) lookups inj p this, of "unat (Fsize env)"] w r
    show ?thesis by auto
  qed
  from r normal have n: "pass = 0 \<or> labels_distinct env info out \<longrightarrow> (\<exists>s'. r = Inr s')" by auto
  have p: "\<forall>s s'. Index s < Fsize env \<and> loop_body env pass s = Inr s' \<longrightarrow>
                unat (Index s) < unat (Index s')"
    using loop_body_progress [OF assms(1,2)] by blast
  from b(1) w l run r n p show ?thesis by blast
qed

theorem run_pass_terminates_witness:
  "\<exists>s0 s'. pass_begin sample_env 1
        (createSymbols (\<lambda>addr. None)
           (setIP (insertAddress (SymbolTable_new None 0 0x1000 8) 0x1000) 0x1000)) [] = Inr s0 \<and>
     disasm_loop_within 8 sample_env 1 s0 = Some (Inr s') \<and>
     disasm_loop sample_env 1 s0 = Some (Inr s') \<and>
     run_pass sample_env 1
        (createSymbols (\<lambda>addr. None)
           (setIP (insertAddress (SymbolTable_new None 0 0x1000 8) 0x1000) 0x1000)) [] =
       Some (Inr (pass_end sample_env 1 s')) \<and>
     Streamer (pass_end sample_env 1 s') =
       [emitLabel ''L0'', emitRawText (CHR 0x09 # ''.long'' @ CHR 0x09 # ''0x00000000''),
        AddComment ''L0'', emitInstruction call_inst]"
proof -
  define info where "info = createSymbols (\<lambda>addr. None)
           (setIP (insertAddress (SymbolTable_new None 0 0x1000 8) 0x1000) 0x1000)"
  have contract: "\<forall>pass idx sz info. idx < Fsize sample_env \<longrightarrow>
      (status (getInstruction sample_env pass idx sz info) \<noteq> Fail \<longrightarrow>
         Size (getInstruction sample_env pass idx sz info) \<noteq> 0) \<and>
      unat idx + unat (Size (getInstruction sample_env pass idx sz info)) \<le> unat (Fsize sample_env)"
    by (auto simp: sample_env_def word_less_nat_alt)
  have room: "unat (Fsize sample_env) + 4 \<le> 2 ^ 64" by (simp add: sample_env_def)
  have frames: "\<forall>g a. di_ctx sample_env = Some g \<longrightarrow> length (g a) < 2 ^ 32"
    by (simp add: sample_env_def)
  have names: "name_at sample_env info a = (if a = 0x1000 then ''L0'' else [])" for a
    by (simp add: name_at_def info_def lookupSymbolName_def createSymbols_def createSymbols_entry_def
          setIP_def insertAddress_def SymbolTable_new_def getSymbolNameAt_def lookupLocalPC_def
          c_str_or_null_def sample_env_def write_dec.simps digit_char_def Let_def)
  have "\<exists>addrs. Info (getInstruction sample_env pass idx sz st) =
          lookup_all (jl_getFunctionInfo sample_env) st addrs" for pass idx sz st
    by (rule exI [of _ "[]"]) (simp add: sample_env_def)
  then have distinct: "labels_distinct sample_env info []"
    by (simp add: labels_distinct_def Ctx_isUndefined_def names) (simp add: sample_env_def)
  from run_pass_terminates [OF contract room frames, of 1 info "[]"] distinct
  obtain s0 s' where a: "pass_begin sample_env 1 info [] = Inr s0"
      "disasm_loop_within 8 sample_env 1 s0 = Some (Inr s')"
      "disasm_loop sample_env 1 s0 = Some (Inr s')"
      "run_pass sample_env 1 info [] = Some (Inr (pass_end sample_env 1 s'))"
    by (auto simp: sample_env_def)
  from sample_emission a(4) have "Streamer (pass_end sample_env 1 s') =
       [emitLabel ''L0'', emitRawText (CHR 0x09 # ''.long'' @ CHR 0x09 # ''0x00000000''),
        AddComment ''L0'', emitInstruction call_inst]"
    unfolding info_def by auto
  with a show ?thesis unfolding info_def by blast
qed

text \<open>
  Claim C5. Three calls of \<open>emit_lineinfo\<close> on a new printer with the stacks \<open>f1\<close>,
  then \<open>f1, f2\<close>, then \<open>f1, f2, f3\<close> (outermost first), the three frames having the
  same method name: the first call opens the frame (the only line with the opening glyph);
  the second and the third print one line each, the head of \<open>f1\<close> followed on the same
  line by \<open>@ file:line\<close> of the deeper frames; \<open>inline_depth\<close> is 1 after each call.
\<close>

theorem recursion_collapsed:
  assumes "method_of f2 = method_of f1" "method_of f3 = method_of f1"
  shows "emit_all (DILineInfoPrinter_new ls bo) [[f1], [f2, f1], [f3, f2, f1]] =
     Some ([ls @ (if bo then glyph_open else []) @ frame_head f1 @ ''\<newline>'',
            ls @ (if bo then glyph_bar else []) @ frame_head f1 @ same_line_text f2 @ ''\<newline>'',
            ls @ (if bo then glyph_bar else []) @ frame_head f1 @ same_line_text f2 @
              same_line_text f3 @ ''\<newline>''],
           (DILineInfoPrinter_new ls bo)\<lparr>context_vec := [f1, f2, f3], inline_depth := 1\<rparr>) \<and>
    map_option snd (emit_all (DILineInfoPrinter_new ls bo) [[f1]]) =
      Some ((DILineInfoPrinter_new ls bo)\<lparr>context_vec := [f1], inline_depth := 1\<rparr>) \<and>
    map_option snd (emit_all (DILineInfoPrinter_new ls bo) [[f1], [f2, f1]]) =
      Some ((DILineInfoPrinter_new ls bo)\<lparr>context_vec := [f1, f2], inline_depth := 1\<rparr>)"
proof -
  define p0 where "p0 = DILineInfoPrinter_new ls bo"
  have 1: "emit_lineinfo p0 [f1] =
     Some (ls @ (if bo then glyph_open else []) @ frame_head f1 @ ''\<newline>'',
           p0\<lparr>context_vec := [f1], inline_depth := 1\<rparr>)"
    by (simp add: p0_def annot_simps frame_head_def)
  have 2: "emit_lineinfo (p0\<lparr>context_vec := [f1], inline_depth := 1\<rparr>) [f2, f1] =
     Some (ls @ (if bo then glyph_bar else []) @ frame_head f1 @ same_line_text f2 @ ''\<newline>'',
           p0\<lparr>context_vec := [f1, f2], inline_depth := 1\<rparr>)"
    using assms by (simp add: p0_def annot_simps frame_head_def same_line_text_def)
  have 3: "emit_lineinfo (p0\<lparr>context_vec := [f1, f2], inline_depth := 1\<rparr>) [f3, f2, f1] =
     Some (ls @ (if bo then glyph_bar else []) @ frame_head f1 @ same_line_text f2 @
             same_line_text f3 @ ''\<newline>'',
           p0\<lparr>context_vec := [f1, f2, f3], inline_depth := 1\<rparr>)"
    using assms by (simp add: p0_def annot_simps frame_head_def same_line_text_def)
  show ?thesis
    unfolding p0_def [symmetric] by (simp add: 1 2 3)
qed

theorem recursion_collapsed_witness:
  "emit_all (DILineInfoPrinter_new ''; '' True)
     [[frame_at ''f'' ''a.jl'' 1],
      [frame_at ''f'' ''a.jl'' 2, frame_at ''f'' ''a.jl'' 1],
      [frame_at ''f'' ''a.jl'' 3, frame_at ''f'' ''a.jl'' 2, frame_at ''f'' ''a.jl'' 1]] =
   Some ([''; '' @ glyph_open @ '' @ a.jl:1 within `f`\<newline>'',
          ''; '' @ glyph_bar @ '' @ a.jl:1 within `f` @ a.jl:2\<newline>'',
          ''; '' @ glyph_bar @ '' @ a.jl:1 within `f` @ a.jl:2 @ a.jl:3\<newline>''],
         (DILineInfoPrinter_new ''; '' True)
           \<lparr>context_vec := [frame_at ''f'' ''a.jl'' 1, frame_at ''f'' ''a.jl'' 2, frame_at ''f'' ''a.jl'' 3],
            inline_depth := 1\<rparr>)"
  using recursion_collapsed [of "frame_at ''f'' ''a.jl'' 2" "frame_at ''f'' ''a.jl'' 1"
          "frame_at ''f'' ''a.jl'' 3" "''; ''" True, THEN conjunct1]
  by (simp add: frame_at_def frame_head_def same_line_text_def method_of_def rtrim_def
        write_dec.simps digit_char_def)

text \<open>
  Claim C6. Three calls of \<open>emit_lineinfo\<close> on a new printer with the stacks \<open>a, b\<close>,
  then \<open>a\<close>, then \<open>a, c\<close> (outermost first), the three method names being distinct: the
  first call opens \<open>a\<close> and then \<open>b\<close>, the second prints one closing line with one
  closing glyph, the third opens \<open>c\<close>; the context is \<open>a, b\<close>, then \<open>a\<close>, then
  \<open>a, c\<close>, and never holds both \<open>b\<close> and \<open>c\<close>.
\<close>

theorem push_pop:
  assumes "method_of b \<noteq> method_of a" "method_of c \<noteq> method_of a" "method_of b \<noteq> method_of c"
  shows "emit_all (DILineInfoPrinter_new ls bo) [[b, a], [a], [c, a]] =
     Some ([ls @ (if bo then glyph_open else []) @ frame_head a @ ''\<newline>'' @
            ls @ (if bo then glyph_bar else []) @ glyph_open @ frame_head b @ ''\<newline>'',
            ls @ (if bo then glyph_bar else []) @ repeat 1 glyph_close @ ''\<newline>'',
            ls @ (if bo then glyph_bar else []) @ glyph_open @ frame_head c @ ''\<newline>''],
           (DILineInfoPrinter_new ls bo)\<lparr>context_vec := [a, c], inline_depth := 2\<rparr>) \<and>
    map_option snd (emit_all (DILineInfoPrinter_new ls bo) [[b, a]]) =
      Some ((DILineInfoPrinter_new ls bo)\<lparr>context_vec := [a, b], inline_depth := 2\<rparr>) \<and>
    map_option snd (emit_all (DILineInfoPrinter_new ls bo) [[b, a], [a]]) =
      Some ((DILineInfoPrinter_new ls bo)\<lparr>context_vec := [a], inline_depth := 1\<rparr>) \<and>
    c \<notin> set [a, b] \<and> b \<notin> set [a, c]"
proof -
  define p0 where "p0 = DILineInfoPrinter_new ls bo"
  have 1: "emit_lineinfo p0 [b, a] =
     Some (ls @ (if bo then glyph_open else []) @ frame_head a @ ''\<newline>'' @
           ls @ (if bo then glyph_bar else []) @ glyph_open @ frame_head b @ ''\<newline>'',
           p0\<lparr>context_vec := [a, b], inline_depth := 2\<rparr>)"
    using assms by (simp add: p0_def annot_simps frame_head_def)
  have 2: "emit_lineinfo (p0\<lparr>context_vec := [a, b], inline_depth := 2\<rparr>) [a] =
     Some (ls @ (if bo then glyph_bar else []) @ repeat 1 glyph_close @ ''\<newline>'',
           p0\<lparr>context_vec := [a], inline_depth := 1\<rparr>)"
    using assms by (simp add: p0_def annot_simps frame_head_def)
  have 3: "emit_lineinfo (p0\<lparr>context_vec := [a], inline_depth := 1\<rparr>) [c, a] =
     Some (ls @ (if bo then glyph_bar else []) @ glyph_open @ frame_head c @ ''\<newline>'',
           p0\<lparr>context_vec := [a, c], inline_depth := 2\<rparr>)"
    using assms by (simp add: p0_def annot_simps frame_head_def)
  have "c \<notin> set [a, b]" "b \<notin> set [a, c]" using assms by auto
  then show ?thesis
    unfolding p0_def [symmetric] by (simp add: 1 2 3)
qed

theorem push_pop_witness:
  "emit_all (DILineInfoPrinter_new ''; '' True)
     [[frame_at ''B'' ''b.jl'' 2, frame_at ''A'' ''a.jl'' 1],
      [frame_at ''A'' ''a.jl'' 1],
      [frame_at ''C'' ''c.jl'' 3, frame_at ''A'' ''a.jl'' 1]] =
   Some ([''; '' @ glyph_open @ '' @ a.jl:1 within `A`\<newline>'' @
          ''; '' @ glyph_bar @ glyph_open @ '' @ b.jl:2 within `B`\<newline>'',
          ''; '' @ glyph_bar @ glyph_close @ ''\<newline>'',
          ''; '' @ glyph_bar @ glyph_open @ '' @ c.jl:3 within `C`\<newline>''],
         (DILineInfoPrinter_new ''; '' True)
           \<lparr>context_vec := [frame_at ''A'' ''a.jl'' 1, frame_at ''C'' ''c.jl'' 3], inline_depth := 2\<rparr>)"
  using push_pop [of "frame_at ''B'' ''b.jl'' 2" "frame_at ''A'' ''a.jl'' 1"
          "frame_at ''C'' ''c.jl'' 3" "''; ''" True, THEN conjunct1]
  by (simp add: frame_at_def frame_head_def method_of_def rtrim_def repeat_def
        write_dec.simps digit_char_def)

text \<open>
  Claim C7 says that a second run of \<open>createSymbols\<close>, with the same instruction pointer
  and the same runtime lookup, changes no name that is assigned and not empty. It changes
  the name of an entry that \<open>lookupSymbolName\<close> made after the first run: the address
  \<open>0x1004\<close> of the range \<open>[0x1000, 0x1008)\<close>, looked up after the first run, has the
  name of the runtime lookup, and the second run, with the instruction pointer where it
  was, names it \<open>L4\<close>.
\<close>

theorem createSymbols_renames_later_entry:
  "Table (snd (lookupSymbolName (\<lambda>addr. Some ''julia_f'')
                 (createSymbols (\<lambda>addr. Some ''julia_f'')
                    (setIP (SymbolTable_new None 0 0x1000 8) 0x1000)) 0x1004)) 0x1004 =
     Some ''julia_f'' \<and>
   Table (createSymbols (\<lambda>addr. Some ''julia_f'')
            (snd (lookupSymbolName (\<lambda>addr. Some ''julia_f'')
                    (createSymbols (\<lambda>addr. Some ''julia_f'')
                       (setIP (SymbolTable_new None 0 0x1000 8) 0x1000)) 0x1004))) 0x1004 =
     Some ''L4'' \<and>
   ip (snd (lookupSymbolName (\<lambda>addr. Some ''julia_f'')
              (createSymbols (\<lambda>addr. Some ''julia_f'')
                 (setIP (SymbolTable_new None 0 0x1000 8) 0x1000)) 0x1004)) = 0x1000"
  by (simp add: lookupSymbolName_def createSymbols_def createSymbols_entry_def setIP_def
        SymbolTable_new_def getSymbolNameAt_def lookupLocalPC_def c_str_or_null_def
        write_dec.simps digit_char_def Let_def)

text \<open>
  Claim C7, as amended. An entry that is in the table when \<open>createSymbols\<close> first runs
  keeps the name that run gave it: through any lookups by \<open>lookupSymbolName\<close> and through
  a second run of \<open>createSymbols\<close> with the same instruction pointer and the same runtime
  lookup. Two runs of \<open>createSymbols\<close> in a row leave the table that one run leaves. (An
  entry that a lookup makes between the two runs is named again by the second run.)
\<close>

theorem createSymbols_twice:
  assumes "Table st a \<noteq> None"
  shows "Table (createSymbols info (lookup_all info (createSymbols info st) xs)) a =
           Table (createSymbols info st) a \<and>
         Table (lookup_all info (createSymbols info st) xs) a = Table (createSymbols info st) a \<and>
         createSymbols info (createSymbols info st) = createSymbols info st"
proof -
  define st1 where "st1 = createSymbols info st"
  define st2 where "st2 = lookup_all info st1 xs"
  from assms obtain n where n: "Table st a = Some n" by blast
  have t1: "Table st1 a = Some (createSymbols_entry info st a n)"
    by (simp add: st1_def createSymbols_def n)
  then have t2: "Table st2 a = Table st1 a"
    unfolding st2_def by (intro lookup_all_keeps) simp
  have f: "ip st2 = ip st" "MemObj_data st2 = MemObj_data st" "MemObj_size st2 = MemObj_size st"
    by (simp_all add: st2_def st1_def lookup_all_fields createSymbols_fields)
  have "Table (createSymbols info st2) a =
        Some (createSymbols_entry info st2 a (createSymbols_entry info st a n))"
    by (simp add: createSymbols_def t2 t1)
  also have "\<dots> = Table st1 a"
    by (simp add: createSymbols_entry_cong [OF f] createSymbols_entry_idem t1)
  finally have a: "Table (createSymbols info st2) a = Table st1 a" .
  have "(\<lambda>first. map_option (createSymbols_entry info st1 first) (Table st1 first)) = Table st1"
  proof
    fix first
    have c: "\<And>x. createSymbols_entry info st1 first x = createSymbols_entry info st first x"
      by (rule createSymbols_entry_cong) (simp_all add: st1_def createSymbols_fields)
    have t: "Table st1 first = map_option (createSymbols_entry info st first) (Table st first)"
      by (simp add: st1_def createSymbols_def)
    show "map_option (createSymbols_entry info st1 first) (Table st1 first) = Table st1 first"
      unfolding t by (cases "Table st first") (simp_all add: c createSymbols_entry_idem)
  qed
  then have "createSymbols info st1 = st1"
    by (simp add: createSymbols_def [of info st1])
  with a t2 show ?thesis unfolding st2_def st1_def by simp
qed

theorem createSymbols_twice_witness:
  "Table (createSymbols (\<lambda>a. Some ''g'')
            (lookup_all (\<lambda>a. Some ''g'')
               (createSymbols (\<lambda>a. Some ''g'') (insertAddress (SymbolTable_new None 0 0x1000 8) 0x1004))
               [0x1000]))
     0x1004 =
   Table (createSymbols (\<lambda>a. Some ''g'') (insertAddress (SymbolTable_new None 0 0x1000 8) 0x1004)) 0x1004"
  using createSymbols_twice [of "insertAddress (SymbolTable_new None 0 0x1000 8) 0x1004" "0x1004"
          "\<lambda>a. Some ''g''" "[0x1000]"]
  by (simp add: insertAddress_def)

text \<open>
  Claim C8. \<open>emit_lineinfo\<close> on an empty frame stack prints nothing and returns the
  printer as it was, whatever its state.
\<close>

theorem empty_stack_is_skipped:
  "emit_lineinfo p [] = Some ([], p)"
  by (simp add: emit_lineinfo_def)

text \<open>
  Claim C9. \<open>SetVerbosity\<close> with a string other than \<open>default\<close>, \<open>source\<close> and
  \<open>none\<close> leaves the printer as it is; a new printer given such a string is the printer
  given \<open>source\<close> or \<open>default\<close>, with full source output, and annotates as that one.
\<close>

theorem unknown_verbosity_ignored:
  assumes "c \<noteq> ''default''" "c \<noteq> ''source''" "c \<noteq> ''none''"
  shows "SetVerbosity p c = p \<and>
         SetVerbosity (DILineInfoPrinter_new ls bo) c = SetVerbosity (DILineInfoPrinter_new ls bo) ''source'' \<and>
         SetVerbosity (DILineInfoPrinter_new ls bo) c = SetVerbosity (DILineInfoPrinter_new ls bo) ''default'' \<and>
         verbosity (SetVerbosity (DILineInfoPrinter_new ls bo) c) = output_source \<and>
         emit_all (SetVerbosity (DILineInfoPrinter_new ls bo) c) DIs =
           emit_all (SetVerbosity (DILineInfoPrinter_new ls bo) ''source'') DIs"
proof -
  have a: "SetVerbosity p c = p" for p :: DILineInfoPrinter
    using assms by (auto simp: SetVerbosity_def)
  have b: "SetVerbosity (DILineInfoPrinter_new ls bo) ''source'' = DILineInfoPrinter_new ls bo"
    "SetVerbosity (DILineInfoPrinter_new ls bo) ''default'' = DILineInfoPrinter_new ls bo"
    by (simp_all add: SetVerbosity_def DILineInfoPrinter_new_def)
  show ?thesis by (simp add: a b) (simp add: DILineInfoPrinter_new_def)
qed

theorem unknown_verbosity_ignored_witness:
  "SetVerbosity (DILineInfoPrinter_new ''; '' True) ''verbose'' =
     SetVerbosity (DILineInfoPrinter_new ''; '' True) ''source'' \<and>
   verbosity (SetVerbosity (DILineInfoPrinter_new ''; '' True) ''verbose'') = output_source"
proof -
  have "''verbose'' \<noteq> ''default''" "''verbose'' \<noteq> ''source''" "''verbose'' \<noteq> ''none''"
    by simp_all
  from unknown_verbosity_ignored [OF this, of "DILineInfoPrinter_new ''; '' True" "''; ''" True "[]"]
  show ?thesis by blast
qed

text \<open>
  Claim C10. On the status \<open>SoftFail\<close> the switch of the loop does what it does on
  \<open>Success\<close>, after the warning line in the emission pass: there the streamer receives
  the warning, the comments of the operands that have a name, the raw bytes comment when
  \<open>binary\<close> is set, and the instruction; in the first pass the target of a branch or call
  is recorded.
\<close>

theorem SoftFail_falls_through:
  "switch_status env pass SoftFail I s =
     switch_status env pass Success I
       (if pass \<noteq> 0
        then s\<lparr>Streamer := Streamer s @ [emitRawText ''potentially undefined instruction encoding:'']\<rparr>
        else s) \<and>
   (pass \<noteq> 0 \<longrightarrow>
      Streamer (switch_status env pass SoftFail I s) =
        Streamer s @ [emitRawText ''potentially undefined instruction encoding:''] @
        snd (symbolicate_operands env (Fptr env + Index s) (Operands I) (DisInfo s) []) @
        (if binary env
         then [emitRawText (rawCodeComment env (Fptr env + Index s) (slice env (Index s) (insSize s)))]
         else []) @
        [emitInstruction I]) \<and>
   (pass = 0 \<longrightarrow>
      DisInfo (switch_status env pass SoftFail I s) =
        (case MCIA_evaluateBranch env of
           Some evaluateBranch \<Rightarrow>
             if isBranch I \<or> isCall I then
               (case evaluateBranch I (Fptr env + Index s) (insSize s) of
                  Some addr \<Rightarrow> insertAddress (DisInfo s) addr
                | None \<Rightarrow> DisInfo s)
             else DisInfo s
         | None \<Rightarrow> DisInfo s))"
proof (intro conjI impI)
  show "switch_status env pass SoftFail I s =
     switch_status env pass Success I
       (if pass \<noteq> 0
        then s\<lparr>Streamer := Streamer s @ [emitRawText ''potentially undefined instruction encoding:'']\<rparr>
        else s)"
    by (simp add: switch_status_def case_SoftFail_def Let_def)
next
  assume p: "pass \<noteq> 0"
  define w where "w = emitRawText ''potentially undefined instruction encoding:''"
  note ap = symbolicate_operands_append [of env "Fptr env + Index s" "Operands I" "DisInfo s" "Streamer s @ [w]"]
  show "Streamer (switch_status env pass SoftFail I s) =
        Streamer s @ [emitRawText ''potentially undefined instruction encoding:''] @
        snd (symbolicate_operands env (Fptr env + Index s) (Operands I) (DisInfo s) []) @
        (if binary env
         then [emitRawText (rawCodeComment env (Fptr env + Index s) (slice env (Index s) (insSize s)))]
         else []) @
        [emitInstruction I]"
    unfolding w_def [symmetric] using p
    by (simp add: switch_status_def case_SoftFail_def case_Success_def Let_def w_def [symmetric] ap)
next
  assume "pass = 0"
  then show "DisInfo (switch_status env pass SoftFail I s) =
        (case MCIA_evaluateBranch env of
           Some evaluateBranch \<Rightarrow>
             if isBranch I \<or> isCall I then
               (case evaluateBranch I (Fptr env + Index s) (insSize s) of
                  Some addr \<Rightarrow> insertAddress (DisInfo s) addr
                | None \<Rightarrow> DisInfo s)
             else DisInfo s
         | None \<Rightarrow> DisInfo s)"
    by (simp add: switch_status_def case_SoftFail_def case_Success_def Let_def split: option.splits)
qed

theorem SoftFail_falls_through_witness:
  "Streamer (switch_status sample_env 1 SoftFail call_inst
      (sample_start\<lparr>Index := 4, insSize := 4,
         DisInfo := createSymbols (\<lambda>addr. None)
                      (setIP (insertAddress (SymbolTable_new None 0 0x1000 8) 0x1000) 0x1000)\<rparr>)) =
     [emitRawText ''potentially undefined instruction encoding:'', AddComment ''L0'',
      emitInstruction call_inst] \<and>
   Table (DisInfo (switch_status sample_env 0 SoftFail call_inst (sample_start\<lparr>Index := 4, insSize := 4\<rparr>)))
     0x1000 = Some []"
proof -
  define s where "s = sample_start\<lparr>Index := 4, insSize := 4,
         DisInfo := createSymbols (\<lambda>addr. None)
                      (setIP (insertAddress (SymbolTable_new None 0 0x1000 8) 0x1000) 0x1000)\<rparr>"
  define s' where "s' = sample_start\<lparr>Index := 4, insSize := 4\<rparr>"
  note t1 = SoftFail_falls_through [of sample_env 1 call_inst s, THEN conjunct2, THEN conjunct1]
  note t0 = SoftFail_falls_through [of sample_env 0 call_inst s', THEN conjunct2, THEN conjunct2]
  have "Streamer (switch_status sample_env 1 SoftFail call_inst s) =
     [emitRawText ''potentially undefined instruction encoding:'', AddComment ''L0'',
      emitInstruction call_inst]"
    using t1
    by (simp add: s_def sample_env_def sample_start_def call_inst_def
          lookupSymbolName_def SymbolTable_new_def createSymbols_def createSymbols_entry_def
          setIP_def insertAddress_def c_str_or_null_def Let_def write_dec.simps digit_char_def)
  moreover have "Table (DisInfo (switch_status sample_env 0 SoftFail call_inst s')) 0x1000 = Some []"
    using t0
    by (simp add: s'_def sample_env_def sample_start_def call_inst_def insertAddress_def)
  ultimately show ?thesis unfolding s_def s'_def by simp
qed

end
